theory Spec2Isabelle
  imports Main "HOL-Library.AList"
begin


section \<open>The JavaScript fragment the Bag lives in\<close>

text \<open>
  The Bag (src/src/index.js) keeps its data in ordinary JavaScript objects, freezes them in
  place (Support: \<open>freeze\<close>, \<open>unfreeze\<close>) and reads and writes them through lodash.
  Objects are mutable and shared by reference, so they live in an explicit store: a
  heap is the list of the objects allocated so far, and a reference is an index into it.
  JavaScript has no reference to an object that was never allocated; the model reads an
  index beyond the heap as an object without properties, and a write to it throws.

  An object has a kind (what lodash's \<open>isPlainObject\<close> tells apart), the flag set by
  \<open>Object.freeze\<close>, and its own enumerable string-keyed data properties in insertion
  order. Symbol keys, accessors of classes and the properties of primitive values (string
  indices) are outside the fragment; numbers are integers. Of the prototype chain the
  fragment has the setter of \<open>__proto__\<close> (\<open>assign_prop\<close>) and nothing else: a name
  that objects inherit (\<open>reserved_names\<close>) reads here as a missing property, so that
  what is proved about keys is proved for keys without such names (\<open>key_ok\<close>). An array
  has no stored \<open>length\<close>: it is one more than the largest index among its keys, as for
  an array that was never shortened and has no hole at its end.
\<close>

type_synonym addr = nat

datatype val = VUndefined | VNull | VBool bool | VNum int | VStr string | VRef addr

datatype kind = PlainObject | ArrayObject | ClassInstance

record obj =
  kind :: kind
  frozen :: bool
  props :: "(string \<times> val) list"

type_synonym heap = "obj list"

text \<open>The only exception of the fragment is the TypeError of a refused write or of a
  property access on something that is not an object.\<close>

datatype error = TypeError

text \<open>
  Code compiled as an ES module (index.js, Support) is strict: a refused write throws.
  lodash is a dependency that is not part of the sources; whether its own assignments
  throw or are silently dropped depends on the mode its build runs in, so every lodash
  function takes the mode as a parameter.
\<close>

datatype mode = Sloppy | Strict

type_synonym 'a outcome = "(error + 'a) \<times> heap"

definition obj_at :: "heap \<Rightarrow> addr \<Rightarrow> obj option" where
  "obj_at h a = (if a < length h then Some (h ! a) else None)"

text \<open>The object literals \<open>{}\<close> and \<open>[]\<close>, and allocation.\<close>

definition empty_object :: obj where
  "empty_object = \<lparr>kind = PlainObject, frozen = False, props = []\<rparr>"

definition empty_array :: obj where
  "empty_array = \<lparr>kind = ArrayObject, frozen = False, props = []\<rparr>"

definition alloc :: "obj \<Rightarrow> heap \<Rightarrow> val \<times> heap" where
  "alloc ob h = (VRef (length h), h @ [ob])"

text \<open>lodash \<open>isObject\<close> and \<open>isPlainObject\<close>.\<close>

fun isObject :: "val \<Rightarrow> bool" where
  "isObject (VRef a) = True"
| "isObject v = False"

fun isPlainObject :: "heap \<Rightarrow> val \<Rightarrow> bool" where
  "isPlainObject h (VRef a) =
     (case obj_at h a of Some ob \<Rightarrow> kind ob = PlainObject | None \<Rightarrow> False)"
| "isPlainObject h v = False"

text \<open>\<open>object[key]\<close> as a read. A missing property reads as \<open>undefined\<close>.\<close>

fun get_prop :: "heap \<Rightarrow> val \<Rightarrow> string \<Rightarrow> val" where
  "get_prop h (VRef a) key =
     (case obj_at h a of
        Some ob \<Rightarrow> (case map_of (props ob) key of Some v \<Rightarrow> v | None \<Rightarrow> VUndefined)
      | None \<Rightarrow> VUndefined)"
| "get_prop h v key = VUndefined"

text \<open>\<open>hasOwnProperty.call(object, key)\<close>, which is also \<open>key in object\<close> here.\<close>

fun has_own :: "heap \<Rightarrow> val \<Rightarrow> string \<Rightarrow> bool" where
  "has_own h (VRef a) key =
     (case obj_at h a of Some ob \<Rightarrow> key \<in> set (map fst (props ob)) | None \<Rightarrow> False)"
| "has_own h v key = False"

text \<open>\<open>Reflect.ownKeys(object)\<close>; it throws on anything that is not an object.\<close>

fun ownKeys :: "heap \<Rightarrow> val \<Rightarrow> error + string list" where
  "ownKeys h (VRef a) =
     (case obj_at h a of Some ob \<Rightarrow> Inr (map fst (props ob)) | None \<Rightarrow> Inl TypeError)"
| "ownKeys h v = Inl TypeError"

text \<open>A write that the object refuses: an exception in strict code, nothing otherwise.\<close>

fun refused :: "mode \<Rightarrow> heap \<Rightarrow> unit outcome" where
  "refused Strict h = (Inl TypeError, h)"
| "refused Sloppy h = (Inr (), h)"

text \<open>\<open>object[key] = value\<close>. A frozen object refuses every write, also the write of the
  value it already holds; a primitive refuses too; \<open>null\<close> and \<open>undefined\<close> always throw.\<close>

fun put_prop :: "mode \<Rightarrow> val \<Rightarrow> string \<Rightarrow> val \<Rightarrow> heap \<Rightarrow> unit outcome" where
  "put_prop md (VRef a) key value h =
     (case obj_at h a of
        Some ob \<Rightarrow>
          if frozen ob then refused md h
          else (Inr (), h[a := ob\<lparr>props := AList.update key value (props ob)\<rparr>])
      | None \<Rightarrow> (Inl TypeError, h))"
| "put_prop md VUndefined key value h = (Inl TypeError, h)"
| "put_prop md VNull key value h = (Inl TypeError, h)"
| "put_prop md v key value h = refused md h"

text \<open>\<open>object[key] = value\<close> as the module's own (strict) code writes it. Assignment
  differs from the definition of an own property under one name: unless the object owns
  a property called \<open>__proto__\<close>, the setter inherited from \<open>Object.prototype\<close> runs.
  It creates no property. Given an object or \<open>null\<close> it replaces the prototype, which is
  outside the fragment and which a frozen object refuses with a TypeError; given
  anything else, or called on a primitive, it does nothing.\<close>

fun assign_prop :: "val \<Rightarrow> string \<Rightarrow> val \<Rightarrow> heap \<Rightarrow> unit outcome" where
  "assign_prop (VRef a) key value h =
     (case obj_at h a of
        Some ob \<Rightarrow>
          if key = ''__proto__'' \<and> key \<notin> set (map fst (props ob)) then
            (if frozen ob \<and> (isObject value \<or> value = VNull) then (Inl TypeError, h)
             else (Inr (), h))
          else put_prop Strict (VRef a) key value h
      | None \<Rightarrow> (Inl TypeError, h))"
| "assign_prop VUndefined key value h = (Inl TypeError, h)"
| "assign_prop VNull key value h = (Inl TypeError, h)"
| "assign_prop v key value h =
     (if key = ''__proto__'' then (Inr (), h) else put_prop Strict v key value h)"

text \<open>\<open>delete object[key]\<close>. Deleting a missing property succeeds, also on a frozen object.\<close>

fun delete_prop :: "mode \<Rightarrow> val \<Rightarrow> string \<Rightarrow> heap \<Rightarrow> unit outcome" where
  "delete_prop md (VRef a) key h =
     (case obj_at h a of
        Some ob \<Rightarrow>
          if key \<notin> set (map fst (props ob)) then (Inr (), h)
          else if frozen ob then refused md h
          else (Inr (), h[a := ob\<lparr>props := AList.delete key (props ob)\<rparr>])
      | None \<Rightarrow> (Inr (), h))"
| "delete_prop md VUndefined key h = (Inl TypeError, h)"
| "delete_prop md VNull key h = (Inl TypeError, h)"
| "delete_prop md v key h = (Inr (), h)"

text \<open>\<open>Object.freeze(object)\<close>: in place, and the identity on what is not an object.\<close>

fun Object_freeze :: "val \<Rightarrow> heap \<Rightarrow> heap" where
  "Object_freeze (VRef a) h =
     (case obj_at h a of Some ob \<Rightarrow> h[a := ob\<lparr>frozen := True\<rparr>] | None \<Rightarrow> h)"
| "Object_freeze v h = h"


section \<open>Support: freeze and unfreeze\<close>

text \<open>
  Both functions recurse through the plain objects below their argument, which need not
  end on a cyclic structure: the recursion depth is bounded by a fuel argument, and
  \<open>None\<close> means that the fuel did not suffice. The loop over the keys is the second
  function of each pair; the keys are read once, before the loop, the values during it.
\<close>

fun freeze :: "nat \<Rightarrow> val \<Rightarrow> heap \<Rightarrow> val outcome option"
  and freeze_keys :: "nat \<Rightarrow> val \<Rightarrow> string list \<Rightarrow> heap \<Rightarrow> unit outcome option" where
  "freeze 0 object h = None"
| "freeze (Suc n) object h =
     (case ownKeys h object of
        Inl e \<Rightarrow> Some (Inl e, h)
      | Inr keys \<Rightarrow>
          (case freeze_keys n object keys h of
             None \<Rightarrow> None
           | Some (Inl e, h') \<Rightarrow> Some (Inl e, h')
           | Some (Inr u, h') \<Rightarrow> Some (Inr object, Object_freeze object h')))"
| "freeze_keys n object [] h = Some (Inr (), h)"
| "freeze_keys n object (key # keys) h =
     (let value = get_prop h object key in
      if \<not> isPlainObject h value then freeze_keys n object keys h
      else
        (case freeze n value h of
           None \<Rightarrow> None
         | Some (Inl e, h1) \<Rightarrow> Some (Inl e, h1)
         | Some (Inr frozen_value, h1) \<Rightarrow>
             (case assign_prop object key frozen_value h1 of
                (Inl e, h2) \<Rightarrow> Some (Inl e, h2)
              | (Inr u, h2) \<Rightarrow> freeze_keys n object keys h2)))"

fun unfreeze :: "nat \<Rightarrow> val \<Rightarrow> heap \<Rightarrow> val outcome option"
  and unfreeze_keys :: "nat \<Rightarrow> val \<Rightarrow> val \<Rightarrow> string list \<Rightarrow> heap \<Rightarrow> unit outcome option" where
  "unfreeze 0 object h = None"
| "unfreeze (Suc n) object h =
     (let (unfrozen, h0) = alloc empty_object h in
      case ownKeys h0 object of
        Inl e \<Rightarrow> Some (Inl e, h0)
      | Inr keys \<Rightarrow>
          (case unfreeze_keys n object unfrozen keys h0 of
             None \<Rightarrow> None
           | Some (Inl e, h') \<Rightarrow> Some (Inl e, h')
           | Some (Inr u, h') \<Rightarrow> Some (Inr unfrozen, h')))"
| "unfreeze_keys n object unfrozen [] h = Some (Inr (), h)"
| "unfreeze_keys n object unfrozen (key # keys) h =
     (let value = get_prop h object key in
      case (if isPlainObject h value then unfreeze n value h else Some (Inr value, h)) of
        None \<Rightarrow> None
      | Some (Inl e, h1) \<Rightarrow> Some (Inl e, h1)
      | Some (Inr new_value, h1) \<Rightarrow>
          (case assign_prop unfrozen key new_value h1 of
             (Inl e, h2) \<Rightarrow> Some (Inl e, h2)
           | (Inr u, h2) \<Rightarrow> unfreeze_keys n object unfrozen keys h2))"


section \<open>The lodash functions the Bag calls\<close>

text \<open>
  lodash is not part of the sources; the functions below follow lodash 4.17.21
  (\<open>get\<close>, \<open>set\<close>, \<open>has\<close>, \<open>unset\<close>, \<open>extend\<close>, \<open>defaults\<close>, \<open>each\<close> and the
  internals \<open>castPath\<close>, \<open>baseGet\<close>, \<open>baseSet\<close>, \<open>assignValue\<close>, \<open>baseAssignValue\<close>,
  \<open>baseUnset\<close>, \<open>isArrayLike\<close>).

  A key is a string, or absent (\<open>None\<close>, the \<open>undefined\<close> of a missing argument, which
  lodash turns into the property name \<open>undefined\<close>). A string that has no dot, or that
  names a property of the object as it stands, is one property name; any other string is
  split at its dots. lodash also reads the bracket syntax \<open>a[0]\<close>, which is not modelled:
  the path of a string is the one lodash computes when the string is \<open>bracket_free\<close>.
\<close>

type_synonym key = "string option"

definition bracket_free :: "string \<Rightarrow> bool" where
  "bracket_free s \<longleftrightarrow> CHR ''['' \<notin> set s \<and> CHR '']'' \<notin> set s"

fun stringToPath :: "string \<Rightarrow> string list" where
  "stringToPath [] = [[]]"
| "stringToPath (c # cs) =
     (if c = CHR ''.'' then [] # stringToPath cs
      else (case stringToPath cs of w # ws \<Rightarrow> (c # w) # ws | [] \<Rightarrow> [[c]]))"

definition isKey :: "heap \<Rightarrow> val \<Rightarrow> string \<Rightarrow> bool" where
  "isKey h object s \<longleftrightarrow> CHR ''.'' \<notin> set s \<or> has_own h object s"

fun castPath :: "heap \<Rightarrow> val \<Rightarrow> key \<Rightarrow> string list" where
  "castPath h object None = [''undefined'']"
| "castPath h object (Some s) = (if isKey h object s then [s] else stringToPath s)"

text \<open>\<open>isIndex\<close> on a path segment: a decimal numeral without leading zeros, below
  \<open>Number.MAX_SAFE_INTEGER\<close>.\<close>

definition isDigit :: "char \<Rightarrow> bool" where
  "isDigit c \<longleftrightarrow> c \<in> set ''0123456789''"

definition decimal :: "string \<Rightarrow> nat" where
  "decimal s = foldl (\<lambda>n c. 10 * n + (of_char c - 48)) 0 s"

definition isIndex :: "string \<Rightarrow> bool" where
  "isIndex s \<longleftrightarrow>
     (s = ''0'' \<or> (s \<noteq> [] \<and> hd s \<noteq> CHR ''0'' \<and> list_all isDigit s))
     \<and> decimal s < 9007199254740991"

definition nullish :: "val \<Rightarrow> bool" where
  "nullish v \<longleftrightarrow> v = VNull \<or> v = VUndefined"

text \<open>\<open>baseGet\<close>: the loop \<open>while (object != null && index < length)\<close>, whose result
  counts only when every segment was consumed, and never for the empty path.\<close>

fun baseGet_loop :: "heap \<Rightarrow> val \<Rightarrow> string list \<Rightarrow> val" where
  "baseGet_loop h object [] = object"
| "baseGet_loop h object (k # ks) =
     (if nullish object then VUndefined else baseGet_loop h (get_prop h object k) ks)"

definition baseGet_path :: "heap \<Rightarrow> val \<Rightarrow> string list \<Rightarrow> val" where
  "baseGet_path h object path = (if path = [] then VUndefined else baseGet_loop h object path)"

definition baseGet :: "heap \<Rightarrow> val \<Rightarrow> key \<Rightarrow> val" where
  "baseGet h object k = baseGet_path h object (castPath h object k)"

definition lodash_get :: "heap \<Rightarrow> val \<Rightarrow> key \<Rightarrow> val \<Rightarrow> val" where
  "lodash_get h object k defaultValue =
     (let result = (if nullish object then VUndefined else baseGet h object k)
      in if result = VUndefined then defaultValue else result)"

text \<open>\<open>has\<close>: every segment must be an own property of the object reached so far.\<close>

fun hasPath :: "heap \<Rightarrow> val \<Rightarrow> string list \<Rightarrow> bool" where
  "hasPath h object [] = False"
| "hasPath h object [k] = (\<not> nullish object \<and> has_own h object k)"
| "hasPath h object (k # ks) =
     (\<not> nullish object \<and> has_own h object k \<and> hasPath h (get_prop h object k) ks)"

definition lodash_has :: "heap \<Rightarrow> val \<Rightarrow> key \<Rightarrow> bool" where
  "lodash_has h object k \<longleftrightarrow> \<not> nullish object \<and> hasPath h object (castPath h object k)"

text \<open>\<open>baseAssignValue\<close> assigns, except that it defines the property \<open>__proto__\<close> with
  \<open>Object.defineProperty\<close>, whose refusal is a TypeError whatever the mode.
  \<open>assignValue\<close> writes unless the object already owns the key with the same value.\<close>

definition baseAssignValue :: "mode \<Rightarrow> val \<Rightarrow> string \<Rightarrow> val \<Rightarrow> heap \<Rightarrow> unit outcome" where
  "baseAssignValue md object k value h =
     put_prop (if k = ''__proto__'' then Strict else md) object k value h"

definition assignValue :: "mode \<Rightarrow> val \<Rightarrow> string \<Rightarrow> val \<Rightarrow> heap \<Rightarrow> unit outcome" where
  "assignValue md object k value h =
     (let objValue = get_prop h object k in
      if \<not> (has_own h object k \<and> objValue = value) then baseAssignValue md object k value h
      else (Inr (), h))"

text \<open>\<open>baseSet\<close>: each segment but the last keeps the object found there or replaces what
  is found by a new \<open>[]\<close> (before an index) or \<open>{}\<close>; the last segment receives the value.
  The loop returns, leaving what it has written so far, at a segment called \<open>__proto__\<close>,
  \<open>constructor\<close> or \<open>prototype\<close>.\<close>

definition unsafe_key :: "string \<Rightarrow> bool" where
  "unsafe_key k \<longleftrightarrow> k = ''__proto__'' \<or> k = ''constructor'' \<or> k = ''prototype''"

fun baseSet_loop :: "mode \<Rightarrow> val \<Rightarrow> string list \<Rightarrow> val \<Rightarrow> heap \<Rightarrow> unit outcome" where
  "baseSet_loop md nested [] value h = (Inr (), h)"
| "baseSet_loop md nested (k # rest) value h =
     (if nullish nested then (Inr (), h)
      else if unsafe_key k then (Inr (), h)
      else
        let (newValue, h1) =
              (if rest = [] then (value, h)
               else
                 let objValue = get_prop h nested k in
                 if isObject objValue then (objValue, h)
                 else alloc (if isIndex (hd rest) then empty_array else empty_object) h)
        in case assignValue md nested k newValue h1 of
             (Inl e, h2) \<Rightarrow> (Inl e, h2)
           | (Inr u, h2) \<Rightarrow> baseSet_loop md (get_prop h2 nested k) rest value h2)"

definition baseSet :: "mode \<Rightarrow> val \<Rightarrow> key \<Rightarrow> val \<Rightarrow> heap \<Rightarrow> unit outcome" where
  "baseSet md object k value h =
     (if \<not> isObject object then (Inr (), h)
      else baseSet_loop md object (castPath h object k) value h)"

definition lodash_set :: "mode \<Rightarrow> val \<Rightarrow> key \<Rightarrow> val \<Rightarrow> heap \<Rightarrow> unit outcome" where
  "lodash_set md object k value h =
     (if nullish object then (Inr (), h) else baseSet md object k value h)"

text \<open>\<open>unset\<close>: delete the last segment from the parent the other segments lead to.\<close>

definition baseUnset :: "mode \<Rightarrow> val \<Rightarrow> key \<Rightarrow> heap \<Rightarrow> unit outcome" where
  "baseUnset md object k h =
     (let path = castPath h object k;
          parent = (if length path < 2 then object else baseGet_path h object (butlast path))
      in if nullish parent then (Inr (), h)
         else delete_prop md parent (if path = [] then ''undefined'' else last path) h)"

definition lodash_unset :: "mode \<Rightarrow> val \<Rightarrow> key \<Rightarrow> heap \<Rightarrow> unit outcome" where
  "lodash_unset md object k h =
     (if nullish object then (Inr (), h) else baseUnset md object k h)"

text \<open>\<open>extend\<close> (\<open>assignIn\<close>) with one source: the keys of the source are read first, then
  each is copied with \<open>assignValue\<close>. A source that is not an object contributes nothing.\<close>

definition keysIn :: "heap \<Rightarrow> val \<Rightarrow> string list" where
  "keysIn h source = (case ownKeys h source of Inr ks \<Rightarrow> ks | Inl e \<Rightarrow> [])"

fun copyObject :: "mode \<Rightarrow> val \<Rightarrow> string list \<Rightarrow> val \<Rightarrow> heap \<Rightarrow> unit outcome" where
  "copyObject md source [] object h = (Inr (), h)"
| "copyObject md source (k # ks) object h =
     (case assignValue md object k (get_prop h source k) h of
        (Inl e, h1) \<Rightarrow> (Inl e, h1)
      | (Inr u, h1) \<Rightarrow> copyObject md source ks object h1)"

definition lodash_extend :: "mode \<Rightarrow> val \<Rightarrow> val \<Rightarrow> heap \<Rightarrow> unit outcome" where
  "lodash_extend md object source h = copyObject md source (keysIn h source) object h"

text \<open>\<open>defaults\<close> with one source (lodash 4.17): a key is assigned when the object's
  value under it is \<open>undefined\<close>, which a missing key and a key holding \<open>undefined\<close> both are.\<close>

fun defaults_loop :: "mode \<Rightarrow> val \<Rightarrow> val \<Rightarrow> string list \<Rightarrow> heap \<Rightarrow> unit outcome" where
  "defaults_loop md object source [] h = (Inr (), h)"
| "defaults_loop md object source (k # ks) h =
     (if get_prop h object k = VUndefined then
        (case put_prop md object k (get_prop h source k) h of
           (Inl e, h1) \<Rightarrow> (Inl e, h1)
         | (Inr u, h1) \<Rightarrow> defaults_loop md object source ks h1)
      else defaults_loop md object source ks h)"

definition lodash_defaults :: "mode \<Rightarrow> val \<Rightarrow> val \<Rightarrow> heap \<Rightarrow> unit outcome" where
  "lodash_defaults md object source h = defaults_loop md object source (keysIn h source) h"


section \<open>The Bag\<close>

text \<open>
  The state of one Bag instance: the heap, the fields \<open>this.attributes\<close> and
  \<open>this.AttributeModel\<close>, and the entry of the instance in the module's WeakMap
  \<open>GuardedState\<close> (\<open>None\<close> before anything was stored for it). An AttributeModel is a
  constructor; \<open>new AttributeModel(value)\<close> allocates an instance whose fields the model
  computes from the value. A method that ends in \<open>return this\<close> returns \<open>Inr ()\<close>.
\<close>

type_synonym model = "val \<Rightarrow> (string \<times> val) list"

record bag =
  heap :: heap
  attributes :: val
  AttributeModel :: "model option"
  GuardedState :: "bool option"

type_synonym 'a result = "(error + 'a) \<times> bag"

definition convertToModel :: "val \<Rightarrow> bag \<Rightarrow> val \<times> bag" where
  "convertToModel value s =
     (case AttributeModel s of
        None \<Rightarrow> (value, s)
      | Some m \<Rightarrow>
          (let (r, h') = alloc \<lparr>kind = ClassInstance, frozen = False, props = m value\<rparr> (heap s)
           in (r, s\<lparr>heap := h'\<rparr>)))"

definition Bag_set :: "mode \<Rightarrow> key \<Rightarrow> val \<Rightarrow> bag \<Rightarrow> unit result" where
  "Bag_set md k value s =
     (let (v, s1) = convertToModel value s;
          (r, h') = lodash_set md (attributes s1) k v (heap s1)
      in (r, s1\<lparr>heap := h'\<rparr>))"

text \<open>\<open>get(key, defaults = null)\<close>: the default parameter replaces an \<open>undefined\<close> fallback.\<close>

definition Bag_get :: "key \<Rightarrow> val \<Rightarrow> bag \<Rightarrow> val" where
  "Bag_get k defaults s =
     lodash_get (heap s) (attributes s) k (if defaults = VUndefined then VNull else defaults)"

definition Bag_has :: "key \<Rightarrow> bag \<Rightarrow> bool" where
  "Bag_has k s = lodash_has (heap s) (attributes s) k"

definition Bag_forget :: "mode \<Rightarrow> key \<Rightarrow> bag \<Rightarrow> unit result" where
  "Bag_forget md k s =
     (let (r, h') = lodash_unset md (attributes s) k (heap s) in (r, s\<lparr>heap := h'\<rparr>))"

definition Bag_put :: "mode \<Rightarrow> val \<Rightarrow> bag \<Rightarrow> unit result" where
  "Bag_put md attrs s =
     (let (r, h') = lodash_extend md (attributes s) attrs (heap s) in (r, s\<lparr>heap := h'\<rparr>))"

definition Bag_defaults :: "mode \<Rightarrow> val \<Rightarrow> bag \<Rightarrow> unit result" where
  "Bag_defaults md defaultAttributes s =
     (let (r, h') = lodash_defaults md (attributes s) defaultAttributes (heap s)
      in (r, s\<lparr>heap := h'\<rparr>))"

definition Bag_guard :: "nat \<Rightarrow> bag \<Rightarrow> unit result option" where
  "Bag_guard n s =
     (case freeze n (attributes s) (heap s) of
        None \<Rightarrow> None
      | Some (Inl e, h') \<Rightarrow> Some (Inl e, s\<lparr>heap := h'\<rparr>)
      | Some (Inr v, h') \<Rightarrow> Some (Inr (), s\<lparr>heap := h', GuardedState := Some True\<rparr>))"

definition Bag_unguard :: "nat \<Rightarrow> bag \<Rightarrow> unit result option" where
  "Bag_unguard n s =
     (case unfreeze n (attributes s) (heap s) of
        None \<Rightarrow> None
      | Some (Inl e, h') \<Rightarrow> Some (Inl e, s\<lparr>heap := h'\<rparr>)
      | Some (Inr v, h') \<Rightarrow>
          Some (Inr (), s\<lparr>heap := h', attributes := v, GuardedState := Some False\<rparr>))"

definition Bag_isGuarded :: "bag \<Rightarrow> val" where
  "Bag_isGuarded s = (case GuardedState s of None \<Rightarrow> VUndefined | Some b \<Rightarrow> VBool b)"

text \<open>The truthiness \<open>&&\<close> tests, on the values \<open>isGuarded\<close> can return.\<close>

fun truthy :: "val \<Rightarrow> bool" where
  "truthy (VBool b) = b"
| "truthy VUndefined = False"
| "truthy VNull = False"
| "truthy (VNum i) = (i \<noteq> 0)"
| "truthy (VStr s) = (s \<noteq> [])"
| "truthy (VRef a) = True"

definition Bag_mutate :: "nat \<Rightarrow> mode \<Rightarrow> key \<Rightarrow> val \<Rightarrow> bag \<Rightarrow> unit result option" where
  "Bag_mutate n md k value s =
     (let isGuarded = Bag_isGuarded s in
      case (if truthy isGuarded then Bag_unguard n s else Some (Inr (), s)) of
        None \<Rightarrow> None
      | Some (Inl e, s1) \<Rightarrow> Some (Inl e, s1)
      | Some (Inr u, s1) \<Rightarrow>
          (case Bag_set md k value s1 of
             (Inl e, s2) \<Rightarrow> Some (Inl e, s2)
           | (Inr u, s2) \<Rightarrow> if truthy isGuarded then Bag_guard n s2 else Some (Inr (), s2)))"

text \<open>
  lodash \<open>each\<close> decides once, before the loop, what it iterates. A collection that is
  array-like (\<open>isArrayLike\<close>: its \<open>length\<close> is a non-negative integer up to
  \<open>Number.MAX_SAFE_INTEGER\<close>; an array, a string, or any object with such a \<open>length\<close>
  property) is iterated by index from 0 to \<open>length - 1\<close>, a hole read as \<open>undefined\<close>;
  any other value by its own keys. The index reaches \<open>set\<close> as a number, whose property
  name is its decimal numeral (\<open>show_nat\<close>). The value under each key is read when its
  turn comes.
\<close>

definition isLength :: "val \<Rightarrow> bool" where
  "isLength v = (case v of VNum i \<Rightarrow> 0 \<le> i \<and> i \<le> 9007199254740991 | _ \<Rightarrow> False)"

definition isArrayIndex :: "string \<Rightarrow> bool" where
  "isArrayIndex s \<longleftrightarrow>
     (s = ''0'' \<or> (s \<noteq> [] \<and> hd s \<noteq> CHR ''0'' \<and> list_all isDigit s))
     \<and> decimal s < 4294967295"

definition array_length :: "obj \<Rightarrow> nat" where
  "array_length ob =
     foldr max (map (\<lambda>k. Suc (decimal k)) (filter isArrayIndex (map fst (props ob)))) 0"

fun js_length :: "heap \<Rightarrow> val \<Rightarrow> val" where
  "js_length h (VStr s) = VNum (int (length s))"
| "js_length h (VRef a) =
     (case obj_at h a of
        Some ob \<Rightarrow>
          if kind ob = ArrayObject then VNum (int (array_length ob))
          else get_prop h (VRef a) ''length''
      | None \<Rightarrow> VUndefined)"
| "js_length h v = VUndefined"

definition isArrayLike :: "heap \<Rightarrow> val \<Rightarrow> bool" where
  "isArrayLike h v \<longleftrightarrow> \<not> nullish v \<and> isLength (js_length h v)"

fun show_nat :: "nat \<Rightarrow> string" where
  "show_nat n =
     (if n < 10 then [char_of (48 + n)] else show_nat (n div 10) @ [char_of (48 + n mod 10)])"

definition each_keys :: "heap \<Rightarrow> val \<Rightarrow> string list" where
  "each_keys h collection =
     (if isArrayLike h collection then
        (case js_length h collection of VNum i \<Rightarrow> map show_nat [0 ..< nat i] | _ \<Rightarrow> [])
      else keysIn h collection)"

text \<open>\<open>iterable[key]\<close> in the loop of \<open>each\<close>, where a string has its characters.\<close>

fun each_value :: "heap \<Rightarrow> val \<Rightarrow> string \<Rightarrow> val" where
  "each_value h (VStr s) k =
     (case map_of (zip (map show_nat [0 ..< length s]) s) k of
        Some c \<Rightarrow> VStr [c] | None \<Rightarrow> VUndefined)"
| "each_value h v k = get_prop h v k"

text \<open>\<open>reset\<close>: \<open>each\<close> passes the value found under each key, and the key, to \<open>set\<close>.\<close>

fun reset_each :: "mode \<Rightarrow> val \<Rightarrow> string list \<Rightarrow> bag \<Rightarrow> unit result" where
  "reset_each md attrs [] s = (Inr (), s)"
| "reset_each md attrs (k # ks) s =
     (case Bag_set md (Some k) (each_value (heap s) attrs k) s of
        (Inl e, s1) \<Rightarrow> (Inl e, s1)
      | (Inr u, s1) \<Rightarrow> reset_each md attrs ks s1)"

definition Bag_reset :: "nat \<Rightarrow> mode \<Rightarrow> val \<Rightarrow> bool \<Rightarrow> bag \<Rightarrow> unit result option" where
  "Bag_reset n md attrs guarded s =
     (let (a, h1) = alloc empty_object (heap s);
          s1 = s\<lparr>heap := h1, attributes := a\<rparr>
      in case reset_each md attrs (each_keys h1 attrs) s1 of
           (Inl e, s2) \<Rightarrow> Some (Inl e, s2)
         | (Inr u, s2) \<Rightarrow> if guarded then Bag_guard n s2 else Some (Inr (), s2))"

text \<open>The constructor, on a heap that holds the argument: \<open>attributes = {}\<close> when the
  argument is \<open>undefined\<close>, the model stored when one is given, then \<open>reset\<close>.\<close>

definition Bag_constructor ::
  "nat \<Rightarrow> mode \<Rightarrow> val \<Rightarrow> bool \<Rightarrow> model option \<Rightarrow> heap \<Rightarrow> unit result option" where
  "Bag_constructor n md attrs guarded m h =
     (let (a, h0) = (if attrs = VUndefined then alloc empty_object h else (attrs, h))
      in Bag_reset n md a guarded
           \<lparr>heap = h0, attributes = VUndefined, AttributeModel = m, GuardedState = None\<rparr>)"


section \<open>Trees of plain objects in the heap\<close>

text \<open>
  What \<open>freeze\<close> and \<open>unfreeze\<close> walk through is the part of the heap reached from an
  object through plain objects only. A shape describes such a part as a tree: a node is a
  plain object with its address, its frozen flag and the shapes of its properties in
  order; a leaf is any value that is not a plain object (a scalar, or a reference to an
  array or a class instance), kept as it is. \<open>shape_at h sh\<close> says that heap \<open>h\<close> holds
  what the shape describes. The addresses of a shape are distinct when no plain object is
  reached twice. \<open>skeleton\<close> forgets addresses and flags: the structure two mappings
  share when they are structurally equal. \<open>copy_shape sh b\<close> is the shape with new
  addresses counted from \<open>b\<close> in the order \<open>unfreeze\<close> allocates, nothing frozen;
  \<open>marks A h\<close> is the heap \<open>h\<close> with the objects at the addresses \<open>A\<close> frozen.
\<close>

datatype shape = Leaf val | Node addr bool "(string \<times> shape) list"

datatype plain = PLeaf val | PNode "(string \<times> plain) list"

fun root :: "shape \<Rightarrow> val" where
  "root (Leaf v) = v"
| "root (Node a fr kvs) = VRef a"

fun addrs :: "shape \<Rightarrow> addr list" where
  "addrs (Leaf v) = []"
| "addrs (Node a fr kvs) = a # concat (map (\<lambda>kc. addrs (snd kc)) kvs)"

fun depth :: "shape \<Rightarrow> nat" where
  "depth (Leaf v) = 0"
| "depth (Node a fr kvs) = Suc (foldr max (map (\<lambda>kc. depth (snd kc)) kvs) 0)"

fun is_Node :: "shape \<Rightarrow> bool" where
  "is_Node (Node a fr kvs) = True"
| "is_Node (Leaf v) = False"

fun opaque :: "heap \<Rightarrow> val \<Rightarrow> bool" where
  "opaque h (VRef b) = (case obj_at h b of Some ob \<Rightarrow> kind ob \<noteq> PlainObject | None \<Rightarrow> False)"
| "opaque h v = True"

fun shape_at :: "heap \<Rightarrow> shape \<Rightarrow> bool" where
  "shape_at h (Leaf v) = opaque h v"
| "shape_at h (Node a fr kvs) =
     (obj_at h a = Some \<lparr>kind = PlainObject, frozen = fr,
                          props = map (\<lambda>kc. (fst kc, root (snd kc))) kvs\<rparr>
      \<and> distinct (map fst kvs)
      \<and> list_all (\<lambda>kc. shape_at h (snd kc)) kvs)"

fun freezable :: "shape \<Rightarrow> bool" where
  "freezable (Leaf v) = True"
| "freezable (Node a fr kvs) =
     ((fr \<longrightarrow> list_all (\<lambda>kc. \<not> is_Node (snd kc)) kvs)
      \<and> list_all (\<lambda>kc. freezable (snd kc)) kvs)"

text \<open>No key of the shape is the name \<open>__proto__\<close>.\<close>

fun proto_free :: "shape \<Rightarrow> bool" where
  "proto_free (Leaf v) = True"
| "proto_free (Node a fr kvs) =
     (''__proto__'' \<notin> set (map fst kvs) \<and> list_all (\<lambda>kc. proto_free (snd kc)) kvs)"

fun skeleton :: "shape \<Rightarrow> plain" where
  "skeleton (Leaf v) = PLeaf v"
| "skeleton (Node a fr kvs) = PNode (map (\<lambda>kc. (fst kc, skeleton (snd kc))) kvs)"

fun flags :: "shape \<Rightarrow> bool list" where
  "flags (Leaf v) = []"
| "flags (Node a fr kvs) = fr # concat (map (\<lambda>kc. flags (snd kc)) kvs)"

fun copy_shape :: "shape \<Rightarrow> addr \<Rightarrow> shape"
  and copy_list :: "(string \<times> shape) list \<Rightarrow> addr \<Rightarrow> (string \<times> shape) list" where
  "copy_shape (Leaf v) b = Leaf v"
| "copy_shape (Node a fr kvs) b = Node b False (copy_list kvs (Suc b))"
| "copy_list [] b = []"
| "copy_list (kc # kvs) b =
     (fst kc, copy_shape (snd kc) b) # copy_list kvs (b + length (addrs (snd kc)))"

fun mark_shape :: "addr set \<Rightarrow> shape \<Rightarrow> shape" where
  "mark_shape A (Leaf v) = Leaf v"
| "mark_shape A (Node a fr kvs) =
     Node a (fr \<or> a \<in> A) (map (\<lambda>kc. (fst kc, mark_shape A (snd kc))) kvs)"

definition marks :: "addr set \<Rightarrow> heap \<Rightarrow> heap" where
  "marks A h = map (\<lambda>(i, ob). if i \<in> A then ob\<lparr>frozen := True\<rparr> else ob) (enumerate 0 h)"






section \<open>Example states\<close>

text \<open>The heaps and Bags of the concrete scenarios: arguments first, then what the
  constructor allocates. \<open>Wrapper\<close> is the model of the spec's scenario, whose instances
  keep the value in the field \<open>raw\<close>.\<close>

definition ex7_heap :: heap where
  "ex7_heap = [\<lparr>kind = PlainObject, frozen = False, props = [(''a'', VNum 1)]\<rparr>]"

definition ex7_bag :: bag where
  "ex7_bag =
     \<lparr>heap = ex7_heap @ [\<lparr>kind = PlainObject, frozen = False, props = [(''a'', VNum 1)]\<rparr>],
      attributes = VRef 1, AttributeModel = None, GuardedState = None\<rparr>"

definition ex9_heap :: heap where
  "ex9_heap =
     [\<lparr>kind = PlainObject, frozen = False,
        props = [(''a'', VNum 1), (''b'', VNum 7), (''c'', VNum 3)]\<rparr>,
      \<lparr>kind = PlainObject, frozen = False, props = [(''a'', VUndefined), (''b'', VNum 2)]\<rparr>]"

definition ex9_bag :: bag where
  "ex9_bag =
     \<lparr>heap = ex9_heap @
        [\<lparr>kind = PlainObject, frozen = False, props = [(''a'', VUndefined), (''b'', VNum 2)]\<rparr>],
      attributes = VRef 2, AttributeModel = None, GuardedState = None\<rparr>"




definition ex4_heap :: heap where
  "ex4_heap =
     [\<lparr>kind = PlainObject, frozen = False, props = []\<rparr>,
      \<lparr>kind = PlainObject, frozen = False, props = [(''a'', VRef 0)]\<rparr>]"

definition ex4_frozen :: heap where
  "ex4_frozen =
     [\<lparr>kind = PlainObject, frozen = True, props = []\<rparr>,
      \<lparr>kind = PlainObject, frozen = True, props = [(''a'', VRef 0)]\<rparr>]"

definition ex2_heap :: heap where
  "ex2_heap =
     [\<lparr>kind = PlainObject, frozen = False, props = [(''a'', VNum 1)]\<rparr>,
      \<lparr>kind = PlainObject, frozen = False, props = [(''b'', VNum 2)]\<rparr>]"

definition ex2_guarded :: bag where
  "ex2_guarded =
     \<lparr>heap = ex2_heap @ [\<lparr>kind = PlainObject, frozen = True, props = [(''a'', VNum 1)]\<rparr>],
      attributes = VRef 2, AttributeModel = None, GuardedState = Some True\<rparr>"

definition ex2_reset :: bag where
  "ex2_reset =
     \<lparr>heap = ex2_heap @
        [\<lparr>kind = PlainObject, frozen = True, props = [(''a'', VNum 1)]\<rparr>,
         \<lparr>kind = PlainObject, frozen = False, props = [(''b'', VNum 2)]\<rparr>],
      attributes = VRef 3, AttributeModel = None, GuardedState = Some True\<rparr>"


definition ex1_heap :: heap where
  "ex1_heap =
     [\<lparr>kind = ArrayObject, frozen = False, props = [(''0'', VNum 1)]\<rparr>,
      \<lparr>kind = PlainObject, frozen = False, props = [(''b'', VNum 1)]\<rparr>,
      \<lparr>kind = PlainObject, frozen = False, props = [(''a'', VRef 1), (''list'', VRef 0)]\<rparr>]"

definition ex1_bag :: bag where
  "ex1_bag =
     \<lparr>heap = ex1_heap @
        [\<lparr>kind = PlainObject, frozen = False, props = [(''a'', VRef 1), (''list'', VRef 0)]\<rparr>],
      attributes = VRef 3, AttributeModel = None, GuardedState = None\<rparr>"

definition ex1_guarded :: bag where
  "ex1_guarded =
     \<lparr>heap =
        [\<lparr>kind = ArrayObject, frozen = False, props = [(''0'', VNum 1)]\<rparr>,
         \<lparr>kind = PlainObject, frozen = True, props = [(''b'', VNum 1)]\<rparr>,
         \<lparr>kind = PlainObject, frozen = False, props = [(''a'', VRef 1), (''list'', VRef 0)]\<rparr>,
         \<lparr>kind = PlainObject, frozen = True, props = [(''a'', VRef 1), (''list'', VRef 0)]\<rparr>],
      attributes = VRef 3, AttributeModel = None, GuardedState = Some True\<rparr>"


section \<open>The objects on the path of a key\<close>

text \<open>
  \<open>walk h v path\<close> lists the objects that \<open>baseSet\<close> meets when it follows the path
  from \<open>v\<close> in heap \<open>h\<close>: the object itself, then the object found under each segment, as
  long as one is found (from there on \<open>baseSet\<close> creates new objects). A key is in the
  modelled fragment (\<open>key_ok\<close>) when it is absent, or has no bracket and neither the key
  nor a segment of it is a reserved name: a property of \<open>Object.prototype\<close>, or
  \<open>prototype\<close>, or \<open>length\<close>.
\<close>

fun walk :: "heap \<Rightarrow> val \<Rightarrow> string list \<Rightarrow> addr list" where
  "walk h v [] = []"
| "walk h (VRef a) (k # rest) =
     a # (if isObject (get_prop h (VRef a) k) then walk h (get_prop h (VRef a) k) rest else [])"
| "walk h v (k # rest) = []"

definition unfrozen_at :: "heap \<Rightarrow> addr \<Rightarrow> bool" where
  "unfrozen_at h a = (case obj_at h a of Some ob \<Rightarrow> \<not> frozen ob | None \<Rightarrow> False)"

definition reserved_names :: "string list" where
  "reserved_names =
     [''__proto__'', ''constructor'', ''prototype'', ''length'', ''hasOwnProperty'',
      ''isPrototypeOf'', ''propertyIsEnumerable'', ''toLocaleString'', ''toString'',
      ''valueOf'', ''__defineGetter__'', ''__defineSetter__'', ''__lookupGetter__'',
      ''__lookupSetter__'']"

definition name_ok :: "string \<Rightarrow> bool" where
  "name_ok seg \<longleftrightarrow> seg \<notin> set reserved_names"

definition key_ok :: "key \<Rightarrow> bool" where
  "key_ok k =
     (case k of None \<Rightarrow> True
      | Some s \<Rightarrow> bracket_free s \<and> list_all name_ok (s # stringToPath s))"



section \<open>What freeze leaves behind\<close>

text \<open>
  \<open>same_struct h h'\<close>: the heaps hold the same objects but for frozen flags, which are
  only ever set. \<open>deep_frozen n h v\<close>: the object \<open>v\<close> is frozen, and so is, to depth
  \<open>n\<close>, every plain object held by a property of it.
\<close>

definition same_struct :: "heap \<Rightarrow> heap \<Rightarrow> bool" where
  "same_struct h h' \<longleftrightarrow>
     length h' = length h
     \<and> (\<forall>x < length h. kind (h' ! x) = kind (h ! x) \<and> props (h' ! x) = props (h ! x)
            \<and> (frozen (h ! x) \<longrightarrow> frozen (h' ! x)))"

definition frozen_at :: "heap \<Rightarrow> addr \<Rightarrow> bool" where
  "frozen_at h a = (case obj_at h a of Some ob \<Rightarrow> frozen ob | None \<Rightarrow> False)"

fun deep_frozen :: "nat \<Rightarrow> heap \<Rightarrow> val \<Rightarrow> bool" where
  "deep_frozen 0 h v = False"
| "deep_frozen (Suc n) h v =
     (case ownKeys h v of
        Inl e \<Rightarrow> False
      | Inr keys \<Rightarrow>
          (\<exists>a. v = VRef a \<and> frozen_at h a)
          \<and> list_all (\<lambda>k. isPlainObject h (get_prop h v k) \<longrightarrow> deep_frozen n h (get_prop h v k))
                keys)"


section \<open>Heaps without dangling references, and paths through plain objects\<close>

text \<open>
  A value is valid in a heap when it is no reference, or a reference to an allocated
  object; a heap is closed when every property value stored in it is valid, as every
  heap of a JavaScript program is. \<open>plain_at h a\<close>: the object at \<open>a\<close> is a plain object.
\<close>

definition valid :: "heap \<Rightarrow> val \<Rightarrow> bool" where
  "valid h v = (case v of VRef b \<Rightarrow> b < length h | _ \<Rightarrow> True)"

definition closed :: "heap \<Rightarrow> bool" where
  "closed h = list_all (\<lambda>ob. list_all (\<lambda>kv. valid h (snd kv)) (props ob)) h"

definition plain_at :: "heap \<Rightarrow> addr \<Rightarrow> bool" where
  "plain_at h a = isPlainObject h (VRef a)"


section \<open>Paths through mappings, and the mapping after a write\<close>

text \<open>
  \<open>through_plain t p\<close>: the path \<open>p\<close>, walked from the root of the structure \<open>t\<close>, meets
  plain mappings, missing keys and primitives only, up to its last segment; what the last
  segment holds is not constrained. On such a path lodash \<open>set\<close> writes into the mappings
  it meets and creates a mapping for every missing or primitive step whose next segment is
  no array index (for an index it creates an array).

  \<open>shape_set sh p w b\<close> is the shape of the mapping \<open>sh\<close> after lodash \<open>set\<close> has written a
  value of shape \<open>w\<close> along \<open>p\<close> in a heap whose next free address is \<open>b\<close>: the last segment
  holds \<open>w\<close>, an existing mapping on the way is entered, and a missing or primitive step
  is replaced by a new mapping at the next free address, or by a new array (a leaf of the
  shape, as arrays are) when the next segment is an index.
\<close>

fun through_plain :: "plain \<Rightarrow> string list \<Rightarrow> bool" where
  "through_plain t [] = True"
| "through_plain (PLeaf v) (k # rest) = (\<not> isObject v)"
| "through_plain (PNode kvs) (k # rest) =
     (rest = [] \<or> (case map_of kvs k of None \<Rightarrow> True | Some c \<Rightarrow> through_plain c rest))"

fun shape_set :: "shape \<Rightarrow> string list \<Rightarrow> shape \<Rightarrow> addr \<Rightarrow> shape" where
  "shape_set sh [] wsh b = sh"
| "shape_set (Leaf v) (k # rest) wsh b = Leaf v"
| "shape_set (Node a fr kvs) (k # rest) wsh b =
     Node a fr
       (AList.update k
          (if rest = [] then wsh
           else
             (case map_of kvs k of
                Some (Node a' fr' kvs') \<Rightarrow> shape_set (Node a' fr' kvs') rest wsh b
              | _ \<Rightarrow>
                  if isIndex (hd rest) then Leaf (VRef b)
                  else shape_set (Node b False []) rest wsh (Suc b)))
          kvs)"

text \<open>
  The shape of the attributes of \<open>ex1_guarded\<close>, the guarded Bag made from
  \<open>{a: {b: 1}, list: [1]}\<close>; and the guarded Bag made from \<open>{}\<close> in a heap that also holds
  \<open>Object.freeze({a: {}})\<close>, at address 1.
\<close>

definition ex1_shape :: shape where
  "ex1_shape =
     Node 3 True [(''a'', Node 1 True [(''b'', Leaf (VNum 1))]), (''list'', Leaf (VRef 0))]"

definition ex3_heap :: heap where
  "ex3_heap =
     [\<lparr>kind = PlainObject, frozen = False, props = []\<rparr>,
      \<lparr>kind = PlainObject, frozen = True, props = [(''a'', VRef 0)]\<rparr>,
      \<lparr>kind = PlainObject, frozen = False, props = []\<rparr>]"

definition ex3_guarded :: bag where
  "ex3_guarded =
     \<lparr>heap = ex3_heap @ [\<lparr>kind = PlainObject, frozen = True, props = []\<rparr>],
      attributes = VRef 3, AttributeModel = None, GuardedState = Some True\<rparr>"


section \<open>Reads and writes of single properties\<close>

lemmas model_eval =
  Bag_constructor_def Bag_reset_def Bag_set_def Bag_get_def Bag_has_def Bag_forget_def
  Bag_put_def Bag_defaults_def Bag_guard_def Bag_unguard_def Bag_isGuarded_def Bag_mutate_def
  convertToModel_def lodash_get_def lodash_set_def lodash_has_def lodash_unset_def
  lodash_extend_def lodash_defaults_def baseGet_def baseGet_path_def baseSet_def baseUnset_def
  assignValue_def baseAssignValue_def unsafe_key_def keysIn_def isKey_def nullish_def
  alloc_def obj_at_def empty_object_def empty_array_def isIndex_def isDigit_def decimal_def
  each_keys_def isArrayLike_def isLength_def array_length_def isArrayIndex_def Let_def
  get_prop.simps has_own.simps put_prop.simps assign_prop.simps isPlainObject.simps
  ownKeys.simps delete_prop.simps Object_freeze.simps

lemma nullish_simps [simp]:
  "nullish VNull" "nullish VUndefined" "\<not> nullish (VRef a)" "\<not> nullish (VNum i)"
  "\<not> nullish (VStr t)" "\<not> nullish (VBool b)"
  by (simp_all add: nullish_def)

lemma get_prop_nullish: "nullish v \<Longrightarrow> get_prop h v k = VUndefined"
  by (auto simp: nullish_def)

lemma obj_at_update:
  "obj_at (h[a := ob]) b = (if b = a \<and> a < length h then Some ob else obj_at h b)"
  by (simp add: obj_at_def)

lemma obj_at_Some_less: "obj_at h a = Some ob \<Longrightarrow> a < length h"
  by (simp add: obj_at_def split: if_splits)

lemma put_prop_unfrozen:
  assumes "obj_at h a = Some ob" "\<not> frozen ob"
  shows "put_prop md (VRef a) k v h =
           (Inr (), h[a := ob\<lparr>props := AList.update k v (props ob)\<rparr>])"
  using assms by simp

lemma map_of_update_get:
  "(case map_of (AList.update k v ps) k' of Some x \<Rightarrow> x | None \<Rightarrow> VUndefined) =
     (if k' = k then v else (case map_of ps k' of Some x \<Rightarrow> x | None \<Rightarrow> VUndefined))"
  by (simp add: update_conv')

lemma get_prop_update:
  assumes "obj_at h a = Some ob"
  shows "get_prop (h[a := ob\<lparr>props := AList.update k v (props ob)\<rparr>]) w k' =
           (if w = VRef a \<and> k' = k then v else get_prop h w k')"
proof (cases w)
  case (VRef b)
  show ?thesis
    using assms obj_at_Some_less [OF assms]
    by (auto simp: VRef obj_at_update map_of_update_get)
qed simp_all

lemma has_own_update:
  assumes "obj_at h a = Some ob"
  shows "has_own (h[a := ob\<lparr>props := AList.update k v (props ob)\<rparr>]) w k' \<longleftrightarrow>
           (w = VRef a \<and> k' = k) \<or> has_own h w k'"
proof (cases w)
  case (VRef b)
  show ?thesis
    using assms obj_at_Some_less [OF assms]
    by (auto simp: VRef obj_at_update update_keys)
qed simp_all

text \<open>What one write to an unfrozen object does, seen through the reads.\<close>

lemma put_prop_effect:
  assumes "obj_at h a = Some ob" "\<not> frozen ob"
  shows "\<exists>h' ob'. put_prop md (VRef a) k v h = (Inr (), h')
           \<and> length h' = length h
           \<and> obj_at h' a = Some ob' \<and> \<not> frozen ob' \<and> kind ob' = kind ob
           \<and> (\<forall>b. b \<noteq> a \<longrightarrow> obj_at h' b = obj_at h b)
           \<and> (\<forall>w k'. get_prop h' w k' = (if w = VRef a \<and> k' = k then v else get_prop h w k'))
           \<and> (\<forall>w k'. has_own h' w k' \<longleftrightarrow> (w = VRef a \<and> k' = k) \<or> has_own h w k')"
  using assms obj_at_Some_less [OF assms(1)]
  by (simp add: get_prop_update has_own_update obj_at_update)

lemma has_own_get_prop: "\<not> has_own h w k \<Longrightarrow> get_prop h w k = VUndefined"
proof (cases w)
  case (VRef b)
  assume "\<not> has_own h w k"
  then show ?thesis
    by (auto simp: VRef split: option.splits dest!: map_of_SomeD intro: rev_image_eqI)
qed simp_all

lemma assignValue_effect:
  assumes "obj_at h a = Some ob" "\<not> frozen ob"
  shows "\<exists>h' ob'. assignValue md (VRef a) k v h = (Inr (), h')
           \<and> length h' = length h
           \<and> obj_at h' a = Some ob' \<and> \<not> frozen ob' \<and> kind ob' = kind ob
           \<and> (\<forall>b. b \<noteq> a \<longrightarrow> obj_at h' b = obj_at h b)
           \<and> (\<forall>w k'. get_prop h' w k' = (if w = VRef a \<and> k' = k then v else get_prop h w k'))
           \<and> (\<forall>w k'. has_own h' w k' \<longleftrightarrow> (w = VRef a \<and> k' = k) \<or> has_own h w k')"
proof (cases "has_own h (VRef a) k \<and> get_prop h (VRef a) k = v")
  case True
  then have "assignValue md (VRef a) k v h = (Inr (), h)"
    by (simp add: assignValue_def)
  with True assms show ?thesis
    by (auto simp del: has_own.simps get_prop.simps)
next
  case False
  then have "assignValue md (VRef a) k v h =
      put_prop (if k = ''__proto__'' then Strict else md) (VRef a) k v h"
    by (auto simp: assignValue_def baseAssignValue_def)
  with put_prop_effect [OF assms, of "if k = ''__proto__'' then Strict else md" k v]
  show ?thesis by simp
qed


declare get_prop.simps [simp del] has_own.simps [simp del] put_prop.simps [simp del]
  isPlainObject.simps [simp del] ownKeys.simps [simp del] delete_prop.simps [simp del]
  Object_freeze.simps [simp del] assign_prop.simps [simp del] show_nat.simps [simp del]


lemma obj_at_append_Some: "obj_at h a = Some ob \<Longrightarrow> obj_at (h @ g) a = Some ob"
  by (auto simp: obj_at_def nth_append split: if_splits)

lemma baseSet_loop_single:
  assumes "obj_at h a = Some ob" "\<not> frozen ob" "\<not> unsafe_key k"
  shows "\<exists>h' ob'. baseSet_loop md (VRef a) [k] v h = (Inr (), h')
           \<and> length h' = length h
           \<and> obj_at h' a = Some ob' \<and> \<not> frozen ob' \<and> kind ob' = kind ob
           \<and> (\<forall>b. b \<noteq> a \<longrightarrow> obj_at h' b = obj_at h b)
           \<and> (\<forall>w k'. get_prop h' w k' = (if w = VRef a \<and> k' = k then v else get_prop h w k'))
           \<and> (\<forall>w k'. has_own h' w k' \<longleftrightarrow> (w = VRef a \<and> k' = k) \<or> has_own h w k')"
proof -
  from assignValue_effect [OF assms(1,2), of md k v] obtain h' ob' where
    P: "assignValue md (VRef a) k v h = (Inr (), h')" "length h' = length h"
      "obj_at h' a = Some ob'" "\<not> frozen ob'" "kind ob' = kind ob"
      "\<forall>b. b \<noteq> a \<longrightarrow> obj_at h' b = obj_at h b"
      "\<forall>w k'. get_prop h' w k' = (if w = VRef a \<and> k' = k then v else get_prop h w k')"
      "\<forall>w k'. has_own h' w k' \<longleftrightarrow> (w = VRef a \<and> k' = k) \<or> has_own h w k'"
    by blast
  have "baseSet_loop md (VRef a) [k] v h = (Inr (), h')"
    using P(1) assms(3) by simp
  with P(2-8) show ?thesis by blast
qed


section \<open>The guarded flag is written by guard and unguard only\<close>

lemma GuardedState_convertToModel:
  "GuardedState (snd (convertToModel v s)) = GuardedState s"
  by (simp add: convertToModel_def alloc_def split: option.splits)

lemma GuardedState_Bag_set: "GuardedState (snd (Bag_set md k v s)) = GuardedState s"
  using GuardedState_convertToModel [of v s]
  by (auto simp: Bag_set_def split: prod.splits)

lemma GuardedState_Bag_forget: "GuardedState (snd (Bag_forget md k s)) = GuardedState s"
  by (simp add: Bag_forget_def split: prod.splits)

lemma GuardedState_Bag_put: "GuardedState (snd (Bag_put md a s)) = GuardedState s"
  by (simp add: Bag_put_def split: prod.splits)

lemma GuardedState_Bag_defaults: "GuardedState (snd (Bag_defaults md a s)) = GuardedState s"
  by (simp add: Bag_defaults_def split: prod.splits)

lemma GuardedState_reset_each:
  "GuardedState (snd (reset_each md attrs ks s)) = GuardedState s"
proof (induction ks arbitrary: s)
  case Nil
  show ?case by simp
next
  case (Cons k ks)
  obtain r s1 where st: "Bag_set md (Some k) (each_value (heap s) attrs k) s = (r, s1)"
    by (cases "Bag_set md (Some k) (each_value (heap s) attrs k) s")
  have g: "GuardedState s1 = GuardedState s"
    using GuardedState_Bag_set [of md "Some k" "each_value (heap s) attrs k" s] st by simp
  show ?case
  proof (cases r)
    case (Inl e)
    with st g show ?thesis by simp
  next
    case (Inr u)
    with st g Cons.IH [of s1] show ?thesis by simp
  qed
qed

lemma Bag_reset_unguarded:
  "\<exists>r s'. Bag_reset n md attrs False s = Some (r, s') \<and> GuardedState s' = GuardedState s"
proof -
  define s1 where "s1 = s\<lparr>heap := heap s @ [empty_object], attributes := VRef (length (heap s))\<rparr>"
  define ks where "ks = each_keys (heap s @ [empty_object]) attrs"
  obtain r s2 where st: "reset_each md attrs ks s1 = (r, s2)"
    by (cases "reset_each md attrs ks s1")
  have "GuardedState s2 = GuardedState s"
    using GuardedState_reset_each [of md attrs ks s1] st by (simp add: s1_def)
  moreover have "Bag_reset n md attrs False s = Some (r, s2)"
    using st by (cases r) (simp_all add: Bag_reset_def alloc_def s1_def ks_def)
  ultimately show ?thesis by blast
qed

text \<open>
  Claim C10. A Bag constructed, or reset, with \<open>guarded = false\<close> has no entry in
  \<open>GuardedState\<close>: the constructor returns, and \<open>isGuarded()\<close> of the new Bag is
  \<open>undefined\<close>, not \<open>false\<close>. Nothing but \<open>guard\<close> and \<open>unguard\<close> writes the entry:
  \<open>reset\<close> without guarding, \<open>set\<close>, \<open>forget\<close>, \<open>put\<close> and \<open>defaults\<close> leave
  \<open>isGuarded()\<close> as it was.
\<close>

theorem isGuarded_undefined_until_guard:
  "(\<exists>r s. Bag_constructor n md attrs False m h = Some (r, s)
        \<and> Bag_isGuarded s = VUndefined \<and> Bag_isGuarded s \<noteq> VBool False)
   \<and> (\<exists>r s'. Bag_reset n md attrs False s0 = Some (r, s') \<and> Bag_isGuarded s' = Bag_isGuarded s0)
   \<and> Bag_isGuarded (snd (Bag_set md k v s0)) = Bag_isGuarded s0
   \<and> Bag_isGuarded (snd (Bag_forget md k s0)) = Bag_isGuarded s0
   \<and> Bag_isGuarded (snd (Bag_put md a s0)) = Bag_isGuarded s0
   \<and> Bag_isGuarded (snd (Bag_defaults md a s0)) = Bag_isGuarded s0"
proof -
  have c: "\<exists>r s. Bag_constructor n md attrs False m h = Some (r, s)
        \<and> Bag_isGuarded s = VUndefined \<and> Bag_isGuarded s \<noteq> VBool False"
  proof -
    obtain a h0 where ah: "(if attrs = VUndefined then alloc empty_object h else (attrs, h)) = (a, h0)"
      by (cases "if attrs = VUndefined then alloc empty_object h else (attrs, h)")
    define s where "s = \<lparr>heap = h0, attributes = VUndefined, AttributeModel = m, GuardedState = None\<rparr>"
    obtain r s' where rs: "Bag_reset n md a False s = Some (r, s')" "GuardedState s' = GuardedState s"
      using Bag_reset_unguarded [of n md a s] by blast
    have "Bag_constructor n md attrs False m h = Some (r, s')"
      using ah rs(1) by (simp add: Bag_constructor_def s_def)
    moreover have "Bag_isGuarded s' = VUndefined"
      using rs(2) by (simp add: Bag_isGuarded_def s_def)
    ultimately show ?thesis by auto
  qed
  have r: "\<exists>r s'. Bag_reset n md attrs False s0 = Some (r, s') \<and> Bag_isGuarded s' = Bag_isGuarded s0"
    using Bag_reset_unguarded [of n md attrs s0] by (auto simp: Bag_isGuarded_def)
  show ?thesis
    using c r GuardedState_Bag_set [of md k v s0] GuardedState_Bag_forget [of md k s0]
      GuardedState_Bag_put [of md a s0] GuardedState_Bag_defaults [of md a s0]
    by (simp add: Bag_isGuarded_def)
qed


section \<open>get with an empty or absent key\<close>

text \<open>
  Claim C7 says that \<open>get\<close> with an empty or absent key yields the whole attributes
  tree. It does not: on the Bag made from \<open>{a: 1}\<close>, \<open>get('')\<close> and \<open>get()\<close> return the
  fallback (\<open>null\<close> by default), not the attributes object.
\<close>

theorem get_empty_key_counterexample:
  "Bag_constructor 0 Strict (VRef 0) False None ex7_heap = Some (Inr (), ex7_bag)
   \<and> attributes ex7_bag = VRef 1
   \<and> Bag_get (Some '''') VUndefined ex7_bag = VNull
   \<and> Bag_get (Some '''') (VStr ''fallback'') ex7_bag = VStr ''fallback''
   \<and> Bag_get None (VStr ''fallback'') ex7_bag = VStr ''fallback''"
  by (simp add: model_eval ex7_heap_def ex7_bag_def)

text \<open>
  Claim C7, amended. \<open>get\<close> with the empty key reads the property of the attributes
  object whose name is the empty string, and \<open>get\<close> with an absent key reads the
  property named \<open>undefined\<close>; each returns the fallback (\<open>null\<close> when none is given)
  when that property is missing or holds \<open>undefined\<close>.
\<close>

theorem get_empty_key_reads_property:
  "Bag_get (Some '''') d s =
     (let v = get_prop (heap s) (attributes s) '''';
          fallback = (if d = VUndefined then VNull else d)
      in if v = VUndefined then fallback else v)
   \<and> Bag_get None d s =
     (let v = get_prop (heap s) (attributes s) ''undefined'';
          fallback = (if d = VUndefined then VNull else d)
      in if v = VUndefined then fallback else v)"
  by (auto simp: Bag_get_def lodash_get_def baseGet_def baseGet_path_def isKey_def Let_def
      get_prop_nullish)


section \<open>defaults, put and set on top-level keys\<close>

lemma defaults_loop_effect:
  assumes "obj_at h a = Some ob" "\<not> frozen ob"
  shows "\<exists>h' ob'. defaults_loop md (VRef a) src ks h = (Inr (), h')
           \<and> length h' = length h
           \<and> obj_at h' a = Some ob' \<and> \<not> frozen ob' \<and> kind ob' = kind ob
           \<and> (\<forall>b. b \<noteq> a \<longrightarrow> obj_at h' b = obj_at h b)
           \<and> (\<forall>k. get_prop h' (VRef a) k =
                  (if get_prop h (VRef a) k = VUndefined \<and> k \<in> set ks then get_prop h src k
                   else get_prop h (VRef a) k))
           \<and> (\<forall>k. has_own h' (VRef a) k \<longleftrightarrow>
                  has_own h (VRef a) k \<or> (k \<in> set ks \<and> get_prop h (VRef a) k = VUndefined))"
  using assms
proof (induction ks arbitrary: h ob)
  case Nil
  then show ?case by simp
next
  case (Cons k ks)
  show ?case
  proof (cases "get_prop h (VRef a) k = VUndefined")
    case False
    from Cons.IH [OF Cons.prems] obtain h' ob' where
      IH: "defaults_loop md (VRef a) src ks h = (Inr (), h')" "length h' = length h"
        "obj_at h' a = Some ob'" "\<not> frozen ob'" "kind ob' = kind ob"
        "\<forall>b. b \<noteq> a \<longrightarrow> obj_at h' b = obj_at h b"
        "\<forall>k. get_prop h' (VRef a) k =
               (if get_prop h (VRef a) k = VUndefined \<and> k \<in> set ks then get_prop h src k
                else get_prop h (VRef a) k)"
        "\<forall>k. has_own h' (VRef a) k \<longleftrightarrow>
               has_own h (VRef a) k \<or> (k \<in> set ks \<and> get_prop h (VRef a) k = VUndefined)"
      by blast
    have "defaults_loop md (VRef a) src (k # ks) h = (Inr (), h')"
      using False IH(1) by simp
    moreover have "\<forall>k'. get_prop h' (VRef a) k' =
               (if get_prop h (VRef a) k' = VUndefined \<and> k' \<in> set (k # ks) then get_prop h src k'
                else get_prop h (VRef a) k')"
      using IH(7) False by auto
    moreover have "\<forall>k'. has_own h' (VRef a) k' \<longleftrightarrow>
               has_own h (VRef a) k' \<or> (k' \<in> set (k # ks) \<and> get_prop h (VRef a) k' = VUndefined)"
      using IH(8) False by auto
    ultimately show ?thesis using IH(2-6) by blast
  next
    case True
    define v where "v = get_prop h src k"
    from put_prop_effect [OF Cons.prems, of md k v] obtain h1 ob1 where
      P: "put_prop md (VRef a) k v h = (Inr (), h1)" "length h1 = length h"
        "obj_at h1 a = Some ob1" "\<not> frozen ob1" "kind ob1 = kind ob"
        "\<forall>b. b \<noteq> a \<longrightarrow> obj_at h1 b = obj_at h b"
        "\<forall>w k'. get_prop h1 w k' = (if w = VRef a \<and> k' = k then v else get_prop h w k')"
        "\<forall>w k'. has_own h1 w k' \<longleftrightarrow> (w = VRef a \<and> k' = k) \<or> has_own h w k'"
      by blast
    have src: "get_prop h1 src k' = get_prop h src k'" for k'
      using P(7) True by (auto simp: v_def)
    from Cons.IH [OF P(3,4)] obtain h' ob' where
      IH: "defaults_loop md (VRef a) src ks h1 = (Inr (), h')" "length h' = length h1"
        "obj_at h' a = Some ob'" "\<not> frozen ob'" "kind ob' = kind ob1"
        "\<forall>b. b \<noteq> a \<longrightarrow> obj_at h' b = obj_at h1 b"
        "\<forall>k. get_prop h' (VRef a) k =
               (if get_prop h1 (VRef a) k = VUndefined \<and> k \<in> set ks then get_prop h1 src k
                else get_prop h1 (VRef a) k)"
        "\<forall>k. has_own h' (VRef a) k \<longleftrightarrow>
               has_own h1 (VRef a) k \<or> (k \<in> set ks \<and> get_prop h1 (VRef a) k = VUndefined)"
      by blast
    have "defaults_loop md (VRef a) src (k # ks) h = (Inr (), h')"
      using True IH(1) P(1) by (simp add: v_def)
    moreover have "\<forall>k'. get_prop h' (VRef a) k' =
               (if get_prop h (VRef a) k' = VUndefined \<and> k' \<in> set (k # ks) then get_prop h src k'
                else get_prop h (VRef a) k')"
      using IH(7) P(7) src True by (auto simp: v_def)
    moreover have "\<forall>k'. has_own h' (VRef a) k' \<longleftrightarrow>
               has_own h (VRef a) k' \<or> (k' \<in> set (k # ks) \<and> get_prop h (VRef a) k' = VUndefined)"
      using IH(8) P(7,8) True by (auto simp: v_def)
    ultimately show ?thesis using IH(2-6) P(2,5,6) by auto
  qed
qed



text \<open>
  Claim C9 says that \<open>defaults\<close> never overwrites a value under an existing key, whatever
  the value. It does when the value is \<open>undefined\<close>: the Bag made from
  \<open>{a: undefined, b: 2}\<close> has the key \<open>a\<close>, and \<open>defaults({a: 1, b: 7, c: 3})\<close> replaces
  its value by 1.
\<close>

theorem defaults_overwrites_undefined_counterexample:
  "Bag_constructor 0 Strict (VRef 1) False None ex9_heap = Some (Inr (), ex9_bag)
   \<and> Bag_has (Some ''a'') ex9_bag
   \<and> Bag_get (Some ''a'') (VStr ''none'') ex9_bag = VStr ''none''
   \<and> fst (Bag_defaults Strict (VRef 0) ex9_bag) = Inr ()
   \<and> Bag_get (Some ''a'') (VStr ''none'') (snd (Bag_defaults Strict (VRef 0) ex9_bag)) = VNum 1"
  by (simp add: model_eval ex9_heap_def ex9_bag_def)

text \<open>
  Claim C9, amended. On a Bag whose attributes object is not frozen, \<open>defaults\<close> assigns
  the default under every top-level key of its argument whose value in the attributes is
  \<open>undefined\<close> (a key that is missing, or present and holding \<open>undefined\<close>); every other
  key keeps its value, and the keys are taken literally, never as paths.
\<close>

theorem defaults_fills_undefined_only:
  assumes "attributes s = VRef a" "obj_at (heap s) a = Some ob" "\<not> frozen ob"
  shows "\<exists>s'. Bag_defaults md defaultAttributes s = (Inr (), s')
           \<and> attributes s' = attributes s
           \<and> (\<forall>k. get_prop (heap s') (attributes s') k =
                  (if get_prop (heap s) (attributes s) k = VUndefined
                      \<and> k \<in> set (keysIn (heap s) defaultAttributes)
                   then get_prop (heap s) defaultAttributes k
                   else get_prop (heap s) (attributes s) k))
           \<and> (\<forall>k. has_own (heap s') (attributes s') k \<longleftrightarrow>
                  has_own (heap s) (attributes s) k
                  \<or> (k \<in> set (keysIn (heap s) defaultAttributes)
                     \<and> get_prop (heap s) (attributes s) k = VUndefined))"
proof -
  from defaults_loop_effect [OF assms(2,3), of md defaultAttributes
      "keysIn (heap s) defaultAttributes"]
  obtain h' where
    L: "defaults_loop md (VRef a) defaultAttributes (keysIn (heap s) defaultAttributes) (heap s)
          = (Inr (), h')"
      "\<forall>k. get_prop h' (VRef a) k =
          (if get_prop (heap s) (VRef a) k = VUndefined
              \<and> k \<in> set (keysIn (heap s) defaultAttributes)
           then get_prop (heap s) defaultAttributes k else get_prop (heap s) (VRef a) k)"
      "\<forall>k. has_own h' (VRef a) k \<longleftrightarrow>
          has_own (heap s) (VRef a) k
          \<or> (k \<in> set (keysIn (heap s) defaultAttributes)
             \<and> get_prop (heap s) (VRef a) k = VUndefined)"
    by blast
  have "Bag_defaults md defaultAttributes s = (Inr (), s\<lparr>heap := h'\<rparr>)"
    using L(1) assms(1) by (simp add: Bag_defaults_def lodash_defaults_def)
  then show ?thesis
    using L(2,3) assms(1) by simp
qed

theorem defaults_fills_undefined_only_witness:
  "attributes ex9_bag = VRef 2
   \<and> obj_at (heap ex9_bag) 2 =
       Some \<lparr>kind = PlainObject, frozen = False, props = [(''a'', VUndefined), (''b'', VNum 2)]\<rparr>
   \<and> (\<exists>s'. Bag_defaults Sloppy (VRef 0) ex9_bag = (Inr (), s')
          \<and> get_prop (heap s') (attributes s') ''a'' = VNum 1
          \<and> get_prop (heap s') (attributes s') ''b'' = VNum 2
          \<and> get_prop (heap s') (attributes s') ''c'' = VNum 3)"
proof -
  have a: "attributes ex9_bag = VRef 2"
    by (simp add: ex9_bag_def)
  have b: "obj_at (heap ex9_bag) 2 =
       Some \<lparr>kind = PlainObject, frozen = False, props = [(''a'', VUndefined), (''b'', VNum 2)]\<rparr>"
    by (simp add: ex9_bag_def ex9_heap_def obj_at_def)
  have c: "\<not> frozen \<lparr>kind = PlainObject, frozen = False,
       props = [(''a'', VUndefined), (''b'', VNum 2)]\<rparr>"
    by simp
  from defaults_fills_undefined_only [OF a b c, of Sloppy "VRef 0"] obtain s' where
    s': "Bag_defaults Sloppy (VRef 0) ex9_bag = (Inr (), s')" "attributes s' = attributes ex9_bag"
      "\<forall>k. get_prop (heap s') (attributes s') k =
          (if get_prop (heap ex9_bag) (attributes ex9_bag) k = VUndefined
              \<and> k \<in> set (keysIn (heap ex9_bag) (VRef 0))
           then get_prop (heap ex9_bag) (VRef 0) k
           else get_prop (heap ex9_bag) (attributes ex9_bag) k)"
    by blast
  have "get_prop (heap s') (attributes s') ''a'' = VNum 1"
    "get_prop (heap s') (attributes s') ''b'' = VNum 2"
    "get_prop (heap s') (attributes s') ''c'' = VNum 3"
    by (simp_all add: s'(3) ex9_bag_def ex9_heap_def keysIn_def obj_at_def
        get_prop.simps ownKeys.simps)
  with a b s'(1) show ?thesis by blast
qed


section \<open>freeze and unfreeze on trees of plain objects\<close>

subsection \<open>Freezing a set of objects\<close>

lemma length_marks [simp]: "length (marks A h) = length h"
  by (simp add: marks_def)

lemma nth_marks:
  "i < length h \<Longrightarrow> marks A h ! i = (if i \<in> A then (h ! i)\<lparr>frozen := True\<rparr> else h ! i)"
  by (simp add: marks_def nth_enumerate_eq)

lemma obj_at_marks:
  "obj_at (marks A h) b =
     (case obj_at h b of None \<Rightarrow> None
      | Some ob \<Rightarrow> Some (if b \<in> A then ob\<lparr>frozen := True\<rparr> else ob))"
  by (simp add: obj_at_def nth_marks)

lemma marks_marks: "marks A (marks B h) = marks (A \<union> B) h"
  by (rule nth_equalityI) (auto simp: nth_marks)

lemma marks_empty [simp]: "marks {} h = h"
  by (rule nth_equalityI) (auto simp: nth_marks)

lemma Object_freeze_marks: "Object_freeze (VRef a) h = marks {a} h"
proof (cases "a < length h")
  case True
  then show ?thesis
    by (intro nth_equalityI)
      (auto simp: Object_freeze.simps obj_at_def nth_marks nth_list_update)
next
  case False
  then show ?thesis
    by (intro nth_equalityI) (auto simp: Object_freeze.simps obj_at_def nth_marks)
qed

lemma get_prop_marks [simp]: "get_prop (marks A h) v k = get_prop h v k"
  by (cases v) (auto simp: get_prop.simps obj_at_marks split: option.splits)

lemma has_own_marks [simp]: "has_own (marks A h) v k = has_own h v k"
  by (cases v) (auto simp: has_own.simps obj_at_marks split: option.splits)

lemma isPlainObject_marks [simp]: "isPlainObject (marks A h) v = isPlainObject h v"
  by (cases v) (auto simp: isPlainObject.simps obj_at_marks split: option.splits)

lemma ownKeys_marks [simp]: "ownKeys (marks A h) v = ownKeys h v"
  by (cases v) (auto simp: ownKeys.simps obj_at_marks split: option.splits)

lemma opaque_marks [simp]: "opaque (marks A h) v = opaque h v"
  by (cases v) (auto simp: obj_at_marks split: option.splits)

lemma opaque_not_plain: "opaque h v \<Longrightarrow> \<not> isPlainObject h v"
  by (cases v) (auto simp: isPlainObject.simps split: option.splits)

lemma shape_at_marks: "shape_at h sh \<Longrightarrow> shape_at (marks A h) (mark_shape A sh)"
proof (induction sh)
  case (Leaf v)
  then show ?case by simp
next
  case (Node a fr kvs)
  have "list_all (\<lambda>kc. shape_at (marks A h) (snd kc))
          (map (\<lambda>kc. (fst kc, mark_shape A (snd kc))) kvs)"
    using Node by (auto simp: list_all_iff)
  moreover have "map (\<lambda>kc. (fst kc, root (snd kc))) (map (\<lambda>kc. (fst kc, mark_shape A (snd kc))) kvs)
      = map (\<lambda>kc. (fst kc, root (snd kc))) kvs"
  proof -
    have "root (mark_shape A c) = root c" for c
      by (cases c) simp_all
    then show ?thesis by simp
  qed
  ultimately show ?case
    using Node.prems by (auto simp: obj_at_marks comp_def)
qed

lemma mark_shape_disjoint: "set (addrs sh) \<inter> A = {} \<Longrightarrow> mark_shape A sh = sh"
proof (induction sh)
  case (Leaf v)
  then show ?case by simp
next
  case (Node a fr kvs)
  have "map (\<lambda>kc. (fst kc, mark_shape A (snd kc))) kvs = map (\<lambda>kc. kc) kvs"
  proof (rule map_cong [OF refl])
    fix kc assume kc: "kc \<in> set kvs"
    then have "set (addrs (snd kc)) \<inter> A = {}"
      using Node.prems by auto
    with Node.IH [of kc "snd kc"] kc have "mark_shape A (snd kc) = snd kc"
      by (cases kc) auto
    then show "(fst kc, mark_shape A (snd kc)) = kc"
      by (cases kc) simp
  qed
  with Node.prems show ?case by simp
qed

lemma shape_at_marks_disjoint:
  "shape_at h sh \<Longrightarrow> set (addrs sh) \<inter> A = {} \<Longrightarrow> shape_at (marks A h) sh"
  using shape_at_marks [of h sh A] by (simp add: mark_shape_disjoint)


subsection \<open>freeze on a tree of plain objects\<close>

lemma shape_at_Node_plain: "shape_at h sh \<Longrightarrow> is_Node sh \<Longrightarrow> isPlainObject h (root sh)"
  by (cases sh) (auto simp: isPlainObject.simps)

lemma shape_at_Leaf_not_plain: "shape_at h sh \<Longrightarrow> \<not> is_Node sh \<Longrightarrow> \<not> isPlainObject h (root sh)"
  by (cases sh) (auto simp: opaque_not_plain)

lemma addrs_Leaf: "\<not> is_Node sh \<Longrightarrow> addrs sh = []"
  by (cases sh) simp_all

lemma put_prop_same:
  assumes "obj_at h a = Some ob" "\<not> frozen ob" "map_of (props ob) k = Some v"
  shows "put_prop md (VRef a) k v h = (Inr (), h)"
proof -
  have "AList.update k v (props ob) = props ob"
    using assms(3) by (rule update_triv)
  moreover have "h[a := ob] = h"
    using assms(1) by (auto simp: obj_at_def split: if_splits)
  ultimately show ?thesis
    using assms(1,2) by (simp add: put_prop.simps)
qed

lemma assign_prop_own:
  assumes "obj_at h a = Some ob" "k \<in> fst ` set (props ob)"
  shows "assign_prop (VRef a) k v h = put_prop Strict (VRef a) k v h"
  using assms by (simp add: assign_prop.simps)

lemma assign_prop_other:
  "k \<noteq> ''__proto__'' \<Longrightarrow> assign_prop w k v h = put_prop Strict w k v h"
  by (cases w) (auto simp: assign_prop.simps put_prop.simps split: option.splits)

lemma freeze_keys_children:
  assumes "obj_at H a = Some ob"
    and "\<forall>kc \<in> set rest. map_of (props ob) (fst kc) = Some (root (snd kc))"
    and "frozen ob \<longrightarrow> (\<forall>kc \<in> set rest. \<not> is_Node (snd kc))"
    and "\<forall>kc \<in> set rest. shape_at H (snd kc)"
    and "distinct (concat (map (\<lambda>kc. addrs (snd kc)) rest))"
    and "a \<notin> set (concat (map (\<lambda>kc. addrs (snd kc)) rest))"
    and "\<And>kc H. kc \<in> set rest \<Longrightarrow> is_Node (snd kc) \<Longrightarrow> shape_at H (snd kc) \<Longrightarrow>
           freeze m (root (snd kc)) H =
             Some (Inr (root (snd kc)), marks (set (addrs (snd kc))) H)"
  shows "freeze_keys m (VRef a) (map fst rest) H =
           Some (Inr (), marks (set (concat (map (\<lambda>kc. addrs (snd kc)) rest))) H)"
  using assms
proof (induction rest arbitrary: H)
  case Nil
  then show ?case by simp
next
  case (Cons kc rest)
  have val: "get_prop H (VRef a) (fst kc) = root (snd kc)"
    using Cons.prems(1,2) by (simp add: get_prop.simps)
  have sh: "shape_at H (snd kc)"
    using Cons.prems(4) by simp
  show ?case
  proof (cases "is_Node (snd kc)")
    case False
    have np: "\<not> isPlainObject H (root (snd kc))"
      using sh False by (rule shape_at_Leaf_not_plain)
    have "freeze_keys m (VRef a) (map fst rest) H =
        Some (Inr (), marks (set (concat (map (\<lambda>kc. addrs (snd kc)) rest))) H)"
      using Cons.prems by (intro Cons.IH) auto
    then show ?thesis
      using val np False by (simp add: addrs_Leaf)
  next
    case True
    define H1 where "H1 = marks (set (addrs (snd kc))) H"
    have pl: "isPlainObject H (root (snd kc))"
      using sh True by (rule shape_at_Node_plain)
    have fz: "freeze m (root (snd kc)) H = Some (Inr (root (snd kc)), H1)"
      using Cons.prems(7) [of kc H] True sh by (simp add: H1_def)
    have nf: "\<not> frozen ob"
      using Cons.prems(3) True by auto
    have a1: "obj_at H1 a = Some ob"
      using Cons.prems(1,6) by (simp add: H1_def obj_at_marks)
    have "put_prop Strict (VRef a) (fst kc) (root (snd kc)) H1 = (Inr (), H1)"
      using a1 nf Cons.prems(2) by (intro put_prop_same) auto
    moreover have "fst kc \<in> fst ` set (props ob)"
      using Cons.prems(2) by (auto dest!: map_of_SomeD intro: rev_image_eqI)
    ultimately have put: "assign_prop (VRef a) (fst kc) (root (snd kc)) H1 = (Inr (), H1)"
      using assign_prop_own [OF a1] by simp
    have sh1: "\<forall>kc' \<in> set rest. shape_at H1 (snd kc')"
    proof
      fix kc' assume kc': "kc' \<in> set rest"
      then have "set (addrs (snd kc')) \<inter> set (addrs (snd kc)) = {}"
        using Cons.prems(5) by auto
      moreover have "shape_at H (snd kc')"
        using Cons.prems(4) kc' by simp
      ultimately show "shape_at H1 (snd kc')"
        unfolding H1_def by (intro shape_at_marks_disjoint)
    qed
    have "freeze_keys m (VRef a) (map fst rest) H1 =
        Some (Inr (), marks (set (concat (map (\<lambda>kc. addrs (snd kc)) rest))) H1)"
      using Cons.prems a1 sh1 by (intro Cons.IH) auto
    then show ?thesis
      using val pl fz put by (simp add: H1_def marks_marks Un_commute)
  qed
qed

lemma depth_child: "kc \<in> set kvs \<Longrightarrow> depth (snd kc) \<le> foldr max (map (\<lambda>kc. depth (snd kc)) kvs) 0"
  by (induction kvs) auto

lemma map_of_child:
  assumes "distinct (map fst kvs)" "kc \<in> set kvs"
  shows "map_of (map (\<lambda>kc. (fst kc, f (snd kc))) kvs) (fst kc) = Some (f (snd kc))"
proof -
  have "distinct (map fst (map (\<lambda>kc. (fst kc, f (snd kc))) kvs))"
    using assms(1) by (simp add: comp_def)
  moreover have "(fst kc, f (snd kc)) \<in> set (map (\<lambda>kc. (fst kc, f (snd kc))) kvs)"
    using assms(2) by auto
  ultimately show ?thesis by (rule map_of_is_SomeI)
qed

lemma freeze_shape_at:
  "shape_at h sh \<Longrightarrow> is_Node sh \<Longrightarrow> distinct (addrs sh) \<Longrightarrow> freezable sh \<Longrightarrow> depth sh \<le> n \<Longrightarrow>
     freeze n (root sh) h = Some (Inr (root sh), marks (set (addrs sh)) h)"
proof (induction sh arbitrary: h n)
  case (Leaf v)
  then show ?case by simp
next
  case (Node a fr kvs)
  define ob where "ob = \<lparr>kind = PlainObject, frozen = fr,
      props = map (\<lambda>kc. (fst kc, root (snd kc))) kvs\<rparr>"
  obtain m where n: "n = Suc m"
    using Node.prems(5) by (cases n) auto
  have ob: "obj_at h a = Some ob" and dk: "distinct (map fst kvs)"
    and ch: "\<forall>kc \<in> set kvs. shape_at h (snd kc)"
    using Node.prems(1) by (auto simp: ob_def list_all_iff)
  have keys: "ownKeys h (VRef a) = Inr (map fst kvs)"
    using ob by (simp add: ownKeys.simps ob_def comp_def)
  have rd: "\<forall>kc \<in> set kvs. map_of (props ob) (fst kc) = Some (root (snd kc))"
    using dk by (auto simp: ob_def intro: map_of_child)
  have fr: "frozen ob \<longrightarrow> (\<forall>kc \<in> set kvs. \<not> is_Node (snd kc))"
    using Node.prems(4) by (auto simp: ob_def list_all_iff)
  have dj: "distinct (concat (map (\<lambda>kc. addrs (snd kc)) kvs))"
    "a \<notin> set (concat (map (\<lambda>kc. addrs (snd kc)) kvs))"
    using Node.prems(3) by auto
  have IH: "freeze m (root (snd kc)) H = Some (Inr (root (snd kc)), marks (set (addrs (snd kc))) H)"
    if "kc \<in> set kvs" "is_Node (snd kc)" "shape_at H (snd kc)" for kc H
  proof -
    have "distinct (addrs (snd kc))"
      using dj(1) that(1) by (auto simp: distinct_concat_iff)
    moreover have "freezable (snd kc)"
      using Node.prems(4) that(1) by (auto simp: list_all_iff)
    moreover have "depth (snd kc) \<le> m"
      using Node.prems(5) depth_child [OF that(1)] by (simp add: n)
    ultimately show ?thesis
      using Node.IH [of kc "snd kc" H m] that by (cases kc) auto
  qed
  have "freeze_keys m (VRef a) (map fst kvs) h =
      Some (Inr (), marks (set (concat (map (\<lambda>kc. addrs (snd kc)) kvs))) h)"
    using ob rd fr ch dj IH by (rule freeze_keys_children)
  then show ?case
    using keys by (simp add: n Object_freeze_marks marks_marks)
qed

subsection \<open>unfreeze on a tree of plain objects\<close>

lemma upt_split: "[b ..< b + (m + n)] = [b ..< b + m] @ [b + m ..< b + m + n]"
  by (induction n) (simp_all add: add.assoc)

lemma addrs_copy:
  "addrs (copy_shape sh b) = [b ..< b + length (addrs sh)]"
  "concat (map (\<lambda>kc. addrs (snd kc)) (copy_list kvs b)) =
     [b ..< b + length (concat (map (\<lambda>kc. addrs (snd kc)) kvs))]"
proof (induction sh b and kvs b rule: copy_shape_copy_list.induct)
  case (1 v b)
  show ?case by simp
next
  case (2 a fr kvs b)
  define N where "N = length (concat (map (\<lambda>kc. addrs (snd kc)) kvs))"
  have "[b ..< b + Suc N] = b # [Suc b ..< Suc b + N]"
    by (metis add_Suc_right le_add1 less_Suc_eq_le upt_conv_Cons add_Suc)
  moreover have "concat (map (\<lambda>kc. addrs (snd kc)) (copy_list kvs (Suc b))) = [Suc b ..< Suc b + N]"
    using 2 by (simp only: N_def)
  moreover have "length (addrs (Node a fr kvs)) = Suc N"
    by (simp add: N_def)
  moreover have "addrs (copy_shape (Node a fr kvs) b) =
      b # concat (map (\<lambda>kc. addrs (snd kc)) (copy_list kvs (Suc b)))"
    by simp
  ultimately show ?case
    by (simp only:)
next
  case (3 b)
  show ?case by simp
next
  case (4 kc kvs b)
  define m where "m = length (addrs (snd kc))"
  define n where "n = length (concat (map (\<lambda>kc. addrs (snd kc)) kvs))"
  have "concat (map (\<lambda>kc. addrs (snd kc)) (copy_list (kc # kvs) b)) =
      addrs (copy_shape (snd kc) b) @ concat (map (\<lambda>kc. addrs (snd kc)) (copy_list kvs (b + m)))"
    by (simp add: m_def)
  also have "\<dots> = [b ..< b + m] @ [b + m ..< b + m + n]"
    using 4 by (simp only: m_def n_def)
  also have "\<dots> = [b ..< b + (m + n)]"
    by (rule upt_split [symmetric])
  also have "m + n = length (concat (map (\<lambda>kc. addrs (snd kc)) (kc # kvs)))"
    by (simp add: m_def n_def)
  finally show ?case .
qed

lemma root_copy_Node: "is_Node sh \<Longrightarrow> root (copy_shape sh b) = VRef b"
  by (cases sh) simp_all

lemma copy_Leaf: "\<not> is_Node sh \<Longrightarrow> copy_shape sh b = sh"
  by (cases sh) simp_all

lemma map_fst_copy_list: "map fst (copy_list kvs b) = map fst kvs"
  by (induction kvs arbitrary: b) simp_all

lemma shape_at_addrs_less: "shape_at h sh \<Longrightarrow> x \<in> set (addrs sh) \<Longrightarrow> x < length h"
proof (induction sh)
  case (Leaf v)
  then show ?case by simp
next
  case (Node a fr kvs)
  show ?case
  proof (cases "x = a")
    case True
    then show ?thesis
      using Node.prems(1) by (auto dest: obj_at_Some_less)
  next
    case False
    then obtain kc where kc: "kc \<in> set kvs" "x \<in> set (addrs (snd kc))"
      using Node.prems(2) by auto
    then have "shape_at h (snd kc)"
      using Node.prems(1) by (auto simp: list_all_iff)
    with Node.IH [of kc "snd kc"] kc show ?thesis
      by (cases kc) auto
  qed
qed

lemma opaque_frame:
  assumes "opaque H v" "length H \<le> length H'"
    and "\<forall>x < length H. kind (H ! x) \<noteq> PlainObject \<longrightarrow> kind (H' ! x) \<noteq> PlainObject"
  shows "opaque H' v"
  using assms by (cases v) (auto simp: obj_at_def split: if_splits)

lemma shape_at_frame:
  assumes "shape_at H sh" "length H \<le> length H'"
    and "\<forall>x \<in> set (addrs sh). H' ! x = H ! x"
    and "\<forall>x < length H. kind (H ! x) \<noteq> PlainObject \<longrightarrow> kind (H' ! x) \<noteq> PlainObject"
  shows "shape_at H' sh"
  using assms(1,3)
proof (induction sh)
  case (Leaf v)
  then show ?case
    using assms(2,4) by (auto intro: opaque_frame)
next
  case (Node a fr kvs)
  have "a < length H"
    using Node.prems(1) by (auto dest: obj_at_Some_less)
  then have "obj_at H' a = obj_at H a"
    using Node.prems(2) assms(2) by (simp add: obj_at_def)
  moreover have "shape_at H' (snd kc)" if "kc \<in> set kvs" for kc
  proof -
    have "shape_at H (snd kc)"
      using Node.prems(1) that by (auto simp: list_all_iff)
    moreover have "\<forall>x \<in> set (addrs (snd kc)). H' ! x = H ! x"
      using Node.prems(2) that by auto
    ultimately show ?thesis
      using Node.IH [of kc "snd kc"] that by (cases kc) auto
  qed
  ultimately show ?case
    using Node.prems(1) by (auto simp: list_all_iff)
qed

lemma update_fresh: "k \<notin> fst ` set ps \<Longrightarrow> AList.update k v ps = ps @ [(k, v)]"
  by (induction ps) auto



lemma get_prop_same_obj:
  assumes "a < length H" "a < length H'" "H' ! a = H ! a"
  shows "get_prop H' (VRef a) k = get_prop H (VRef a) k"
  using assms by (simp add: get_prop.simps obj_at_def)

lemma put_prop_fresh_key:
  assumes "obj_at h b = Some \<lparr>kind = kd, frozen = False, props = ps\<rparr>" "k \<notin> fst ` set ps"
  shows "put_prop md (VRef b) k v h =
           (Inr (), h[b := \<lparr>kind = kd, frozen = False, props = ps @ [(k, v)]\<rparr>])"
  using assms by (simp add: put_prop.simps update_fresh)

lemma unfreeze_keys_children:
  assumes "obj_at H b = Some \<lparr>kind = PlainObject, frozen = False, props = ps\<rparr>"
    and "a < b"
    and "\<forall>kc \<in> set rest. get_prop H (VRef a) (fst kc) = root (snd kc)"
    and "\<forall>kc \<in> set rest. shape_at H (snd kc)"
    and "\<forall>kc \<in> set rest. \<forall>x \<in> set (addrs (snd kc)). x < b"
    and "distinct (map fst rest)"
    and "fst ` set ps \<inter> fst ` set rest = {}"
    and "\<And>kc H. kc \<in> set rest \<Longrightarrow> is_Node (snd kc) \<Longrightarrow> shape_at H (snd kc) \<Longrightarrow>
           \<exists>H'. unfreeze m (root (snd kc)) H = Some (Inr (VRef (length H)), H')
             \<and> length H' = length H + length (addrs (snd kc))
             \<and> (\<forall>x < length H. H' ! x = H ! x)
             \<and> shape_at H' (copy_shape (snd kc) (length H))"
    and "''__proto__'' \<notin> fst ` set rest"
  shows "\<exists>H'. unfreeze_keys m (VRef a) (VRef b) (map fst rest) H = Some (Inr (), H')
           \<and> length H' = length H + length (concat (map (\<lambda>kc. addrs (snd kc)) rest))
           \<and> (\<forall>x < length H. x \<noteq> b \<longrightarrow> H' ! x = H ! x)
           \<and> obj_at H' b = Some \<lparr>kind = PlainObject, frozen = False,
                 props = ps @ map (\<lambda>kc. (fst kc, root (snd kc))) (copy_list rest (length H))\<rparr>
           \<and> (\<forall>kc \<in> set (copy_list rest (length H)). shape_at H' (snd kc))"
  using assms
proof (induction rest arbitrary: H ps)
  case Nil
  then show ?case by simp
next
  case (Cons kc rest)
  let ?k = "fst kc" and ?c = "snd kc"
  have bH: "b < length H"
    using Cons.prems(1) by (rule obj_at_Some_less)
  have plainb: "kind (H ! b) = PlainObject"
    using Cons.prems(1) by (auto simp: obj_at_def split: if_splits)
  have val: "get_prop H (VRef a) ?k = root ?c"
    using Cons.prems(3) by simp
  have shc: "shape_at H ?c"
    using Cons.prems(4) by simp
  have "\<exists>nv H1. (if isPlainObject H (root ?c) then unfreeze m (root ?c) H
                  else Some (Inr (root ?c), H)) = Some (Inr nv, H1)
      \<and> length H1 = length H + length (addrs ?c)
      \<and> (\<forall>x < length H. H1 ! x = H ! x)
      \<and> shape_at H1 (copy_shape ?c (length H))
      \<and> nv = root (copy_shape ?c (length H))"
  proof (cases "is_Node ?c")
    case True
    from Cons.prems(8) [of kc H] True shc obtain H1 where
      "unfreeze m (root ?c) H = Some (Inr (VRef (length H)), H1)"
      "length H1 = length H + length (addrs ?c)" "\<forall>x < length H. H1 ! x = H ! x"
      "shape_at H1 (copy_shape ?c (length H))"
      by auto
    then show ?thesis
      using shape_at_Node_plain [OF shc True] root_copy_Node [OF True, of "length H"] by simp
  next
    case False
    then show ?thesis
      using shape_at_Leaf_not_plain [OF shc False] shc by (simp add: copy_Leaf addrs_Leaf)
  qed
  then obtain nv H1 where
    step: "(if isPlainObject H (root ?c) then unfreeze m (root ?c) H
            else Some (Inr (root ?c), H)) = Some (Inr nv, H1)"
    and len1: "length H1 = length H + length (addrs ?c)"
    and old1: "\<forall>x < length H. H1 ! x = H ! x"
    and sh1: "shape_at H1 (copy_shape ?c (length H))"
    and nv: "nv = root (copy_shape ?c (length H))"
    by blast
  define ob2 where "ob2 = \<lparr>kind = PlainObject, frozen = False, props = ps @ [(?k, nv)]\<rparr>"
  define H2 where "H2 = H1[b := ob2]"
  have b1: "obj_at H1 b = Some \<lparr>kind = PlainObject, frozen = False, props = ps\<rparr>"
    using Cons.prems(1) old1 len1 bH by (simp add: obj_at_def)
  have knew: "?k \<notin> fst ` set ps"
    using Cons.prems(7) by auto
  have "?k \<noteq> ''__proto__''"
    using Cons.prems(9) by auto
  then have put: "assign_prop (VRef b) ?k nv H1 = (Inr (), H2)"
    using put_prop_fresh_key [OF b1 knew] by (simp add: H2_def ob2_def assign_prop_other)
  have len2: "length H2 = length H1"
    by (simp add: H2_def)
  have old2: "\<forall>x < length H. x \<noteq> b \<longrightarrow> H2 ! x = H ! x"
    using old1 by (simp add: H2_def)
  have b2: "obj_at H2 b = Some ob2"
    using bH len1 by (simp add: H2_def obj_at_def)
  have kinds2: "\<forall>x < length H. kind (H ! x) \<noteq> PlainObject \<longrightarrow> kind (H2 ! x) \<noteq> PlainObject"
    using old2 plainb by (metis)
  have reads2: "\<forall>kc' \<in> set rest. get_prop H2 (VRef a) (fst kc') = root (snd kc')"
  proof
    fix kc' assume kc': "kc' \<in> set rest"
    have "a < length H" "a < length H2" "H2 ! a = H ! a"
      using Cons.prems(2) bH len1 len2 old2 by auto
    then have "get_prop H2 (VRef a) (fst kc') = get_prop H (VRef a) (fst kc')"
      by (rule get_prop_same_obj)
    then show "get_prop H2 (VRef a) (fst kc') = root (snd kc')"
      using Cons.prems(3) kc' by simp
  qed
  have shapes2: "\<forall>kc' \<in> set rest. shape_at H2 (snd kc')"
  proof
    fix kc' assume kc': "kc' \<in> set rest"
    have "shape_at H (snd kc')"
      using Cons.prems(4) kc' by simp
    moreover have "length H \<le> length H2"
      using len1 len2 by simp
    moreover have "\<forall>x \<in> set (addrs (snd kc')). H2 ! x = H ! x"
      using Cons.prems(5) kc' old2 bH by (metis less_trans list.set_intros(2) nat_neq_iff)
    ultimately show "shape_at H2 (snd kc')"
      using kinds2 by (rule shape_at_frame)
  qed
  have keys2: "fst ` set (ps @ [(?k, nv)]) \<inter> fst ` set rest = {}"
    using Cons.prems(6,7) by auto
  have IH: "\<exists>H'. unfreeze_keys m (VRef a) (VRef b) (map fst rest) H2 = Some (Inr (), H')
           \<and> length H' = length H2 + length (concat (map (\<lambda>kc. addrs (snd kc)) rest))
           \<and> (\<forall>x < length H2. x \<noteq> b \<longrightarrow> H' ! x = H2 ! x)
           \<and> obj_at H' b = Some \<lparr>kind = PlainObject, frozen = False,
                 props = (ps @ [(?k, nv)]) @
                   map (\<lambda>kc. (fst kc, root (snd kc))) (copy_list rest (length H2))\<rparr>
           \<and> (\<forall>kc \<in> set (copy_list rest (length H2)). shape_at H' (snd kc))"
  proof (rule Cons.IH)
    show "obj_at H2 b = Some \<lparr>kind = PlainObject, frozen = False, props = ps @ [(?k, nv)]\<rparr>"
      using b2 by (simp add: ob2_def)
    show "a < b" by (rule Cons.prems(2))
    show "\<forall>kc \<in> set rest. get_prop H2 (VRef a) (fst kc) = root (snd kc)" by (rule reads2)
    show "\<forall>kc \<in> set rest. shape_at H2 (snd kc)" by (rule shapes2)
    show "\<forall>kc \<in> set rest. \<forall>x \<in> set (addrs (snd kc)). x < b"
      using Cons.prems(5) by simp
    show "distinct (map fst rest)"
      using Cons.prems(6) by simp
    show "fst ` set (ps @ [(?k, nv)]) \<inter> fst ` set rest = {}" by (rule keys2)
    show "\<exists>H'. unfreeze m (root (snd kc)) H = Some (Inr (VRef (length H)), H')
             \<and> length H' = length H + length (addrs (snd kc))
             \<and> (\<forall>x < length H. H' ! x = H ! x)
             \<and> shape_at H' (copy_shape (snd kc) (length H))"
      if "kc \<in> set rest" "is_Node (snd kc)" "shape_at H (snd kc)" for kc H
      using Cons.prems(8) [of kc H] that by simp
    show "''__proto__'' \<notin> fst ` set rest"
      using Cons.prems(9) by auto
  qed
  then obtain H' where
    run: "unfreeze_keys m (VRef a) (VRef b) (map fst rest) H2 = Some (Inr (), H')"
    and len': "length H' = length H2 + length (concat (map (\<lambda>kc. addrs (snd kc)) rest))"
    and old': "\<forall>x < length H2. x \<noteq> b \<longrightarrow> H' ! x = H2 ! x"
    and b': "obj_at H' b = Some \<lparr>kind = PlainObject, frozen = False,
                 props = (ps @ [(?k, nv)]) @
                   map (\<lambda>kc. (fst kc, root (snd kc))) (copy_list rest (length H2))\<rparr>"
    and shapes': "\<forall>kc \<in> set (copy_list rest (length H2)). shape_at H' (snd kc)"
    by blast
  have L2: "length H2 = length H + length (addrs ?c)"
    using len1 len2 by simp
  have r1: "unfreeze_keys m (VRef a) (VRef b) (map fst (kc # rest)) H = Some (Inr (), H')"
    using val step put run by simp
  have r2: "length H' = length H + length (concat (map (\<lambda>kc. addrs (snd kc)) (kc # rest)))"
    using len' L2 by simp
  have r3: "\<forall>x < length H. x \<noteq> b \<longrightarrow> H' ! x = H ! x"
    using old' old2 L2 by simp
  have r4: "obj_at H' b = Some \<lparr>kind = PlainObject, frozen = False,
      props = ps @ map (\<lambda>kc. (fst kc, root (snd kc))) (copy_list (kc # rest) (length H))\<rparr>"
    using b' nv L2 by simp
  have shc': "shape_at H' (copy_shape ?c (length H))"
  proof (rule shape_at_frame [OF sh1])
    show "length H1 \<le> length H'"
      using len' len2 by simp
    show "\<forall>x \<in> set (addrs (copy_shape ?c (length H))). H' ! x = H1 ! x"
    proof
      fix x assume "x \<in> set (addrs (copy_shape ?c (length H)))"
      then have "length H \<le> x" "x < length H + length (addrs ?c)"
        by (simp_all add: addrs_copy)
      then have "x \<noteq> b" "x < length H2"
        using bH L2 by auto
      then show "H' ! x = H1 ! x"
        using old' by (simp add: H2_def)
    qed
    show "\<forall>x < length H1. kind (H1 ! x) \<noteq> PlainObject \<longrightarrow> kind (H' ! x) \<noteq> PlainObject"
    proof (intro allI impI)
      fix x assume x: "x < length H1" "kind (H1 ! x) \<noteq> PlainObject"
      have "kind (H1 ! b) = PlainObject"
        using old1 bH plainb by simp
      with x have "x \<noteq> b" by auto
      then have "H' ! x = H1 ! x"
        using old' x(1) len2 by (simp add: H2_def)
      with x(2) show "kind (H' ! x) \<noteq> PlainObject" by simp
    qed
  qed
  have r5: "\<forall>kc' \<in> set (copy_list (kc # rest) (length H)). shape_at H' (snd kc')"
    using shc' shapes' L2 by simp
  from r1 r2 r3 r4 r5 show ?case by blast
qed


lemma shape_at_append: "shape_at h sh \<Longrightarrow> shape_at (h @ g) sh"
proof (rule shape_at_frame)
  assume sh: "shape_at h sh"
  show "shape_at h sh" by (rule sh)
  show "length h \<le> length (h @ g)" by simp
  show "\<forall>x \<in> set (addrs sh). (h @ g) ! x = h ! x"
    using shape_at_addrs_less [OF sh] by (simp add: nth_append)
  show "\<forall>x < length h. kind (h ! x) \<noteq> PlainObject \<longrightarrow> kind ((h @ g) ! x) \<noteq> PlainObject"
    by (simp add: nth_append)
qed

lemma unfreeze_shape_at:
  "shape_at h sh \<Longrightarrow> is_Node sh \<Longrightarrow> depth sh \<le> n \<Longrightarrow> proto_free sh \<Longrightarrow>
     \<exists>h'. unfreeze n (root sh) h = Some (Inr (VRef (length h)), h')
       \<and> length h' = length h + length (addrs sh)
       \<and> (\<forall>x < length h. h' ! x = h ! x)
       \<and> shape_at h' (copy_shape sh (length h))"
proof (induction sh arbitrary: h n)
  case (Leaf v)
  then show ?case by simp
next
  case (Node a fr kvs)
  obtain m where n: "n = Suc m"
    using Node.prems(3) by (cases n) auto
  define b where "b = length h"
  define h0 where "h0 = h @ [empty_object]"
  have ob: "obj_at h a = Some \<lparr>kind = PlainObject, frozen = fr,
      props = map (\<lambda>kc. (fst kc, root (snd kc))) kvs\<rparr>"
    and dk: "distinct (map fst kvs)"
    and ch: "\<forall>kc \<in> set kvs. shape_at h (snd kc)"
    using Node.prems(1) by (auto simp: list_all_iff)
  have ab: "a < b"
    using ob by (auto simp: b_def dest: obj_at_Some_less)
  have keys: "ownKeys h0 (VRef a) = Inr (map fst kvs)"
    using ob by (simp add: ownKeys.simps h0_def obj_at_append_Some comp_def)
  have IH: "\<exists>H'. unfreeze m (root (snd kc)) H = Some (Inr (VRef (length H)), H')
             \<and> length H' = length H + length (addrs (snd kc))
             \<and> (\<forall>x < length H. H' ! x = H ! x)
             \<and> shape_at H' (copy_shape (snd kc) (length H))"
    if "kc \<in> set kvs" "is_Node (snd kc)" "shape_at H (snd kc)" for kc H
  proof -
    have "depth (snd kc) \<le> m"
      using Node.prems(3) depth_child [OF that(1)] by (simp add: n)
    moreover have "proto_free (snd kc)"
      using Node.prems(4) that(1) by (simp add: list_all_iff)
    ultimately show ?thesis
      using Node.IH [of kc "snd kc" H m] that by (cases kc) auto
  qed
  have "\<exists>H'. unfreeze_keys m (VRef a) (VRef b) (map fst kvs) h0 = Some (Inr (), H')
           \<and> length H' = length h0 + length (concat (map (\<lambda>kc. addrs (snd kc)) kvs))
           \<and> (\<forall>x < length h0. x \<noteq> b \<longrightarrow> H' ! x = h0 ! x)
           \<and> obj_at H' b = Some \<lparr>kind = PlainObject, frozen = False,
                 props = [] @ map (\<lambda>kc. (fst kc, root (snd kc))) (copy_list kvs (length h0))\<rparr>
           \<and> (\<forall>kc \<in> set (copy_list kvs (length h0)). shape_at H' (snd kc))"
  proof (rule unfreeze_keys_children)
    show "obj_at h0 b = Some \<lparr>kind = PlainObject, frozen = False, props = []\<rparr>"
      by (simp add: h0_def b_def obj_at_def empty_object_def)
    show "a < b" by (rule ab)
    show "\<forall>kc \<in> set kvs. get_prop h0 (VRef a) (fst kc) = root (snd kc)"
      using ob dk by (auto simp: get_prop.simps h0_def obj_at_append_Some map_of_child)
    show "\<forall>kc \<in> set kvs. shape_at h0 (snd kc)"
      using ch by (auto simp: h0_def intro: shape_at_append)
    show "\<forall>kc \<in> set kvs. \<forall>x \<in> set (addrs (snd kc)). x < b"
      using ch shape_at_addrs_less by (auto simp: b_def)
    show "distinct (map fst kvs)" by (rule dk)
    show "fst ` set [] \<inter> fst ` set kvs = {}" by simp
    show "\<exists>H'. unfreeze m (root (snd kc)) H = Some (Inr (VRef (length H)), H')
             \<and> length H' = length H + length (addrs (snd kc))
             \<and> (\<forall>x < length H. H' ! x = H ! x)
             \<and> shape_at H' (copy_shape (snd kc) (length H))"
      if "kc \<in> set kvs" "is_Node (snd kc)" "shape_at H (snd kc)" for kc H
      using that by (rule IH)
    show "''__proto__'' \<notin> fst ` set kvs"
      using Node.prems(4) by simp
  qed
  then obtain H' where
    run: "unfreeze_keys m (VRef a) (VRef b) (map fst kvs) h0 = Some (Inr (), H')"
    and len: "length H' = length h0 + length (concat (map (\<lambda>kc. addrs (snd kc)) kvs))"
    and old: "\<forall>x < length h0. x \<noteq> b \<longrightarrow> H' ! x = h0 ! x"
    and b': "obj_at H' b = Some \<lparr>kind = PlainObject, frozen = False,
                 props = map (\<lambda>kc. (fst kc, root (snd kc))) (copy_list kvs (length h0))\<rparr>"
    and shapes: "\<forall>kc \<in> set (copy_list kvs (length h0)). shape_at H' (snd kc)"
    by auto
  have r1: "unfreeze n (root (Node a fr kvs)) h = Some (Inr (VRef (length h)), H')"
    using keys run by (simp add: n alloc_def h0_def b_def)
  have r2: "length H' = length h + length (addrs (Node a fr kvs))"
    using len by (simp add: h0_def)
  have r3: "\<forall>x < length h. H' ! x = h ! x"
    using old by (simp add: h0_def b_def nth_append)
  have r4: "shape_at H' (copy_shape (Node a fr kvs) (length h))"
    using b' shapes dk by (simp add: h0_def b_def list_all_iff map_fst_copy_list)
  from r1 r2 r3 r4 show ?case by blast
qed


subsection \<open>The copy and the marked shape\<close>

lemma mark_shape_facts [simp]:
  "root (mark_shape A sh) = root sh"
  "is_Node (mark_shape A sh) = is_Node sh"
  by (cases sh; simp)+

lemma addrs_mark_shape [simp]: "addrs (mark_shape A sh) = addrs sh"
  by (induction sh) (auto simp: comp_def intro!: arg_cong [where f = concat])

lemma depth_mark_shape [simp]: "depth (mark_shape A sh) = depth sh"
  by (induction sh) (auto simp: comp_def intro!: arg_cong [where f = "\<lambda>xs. foldr max xs 0"])



lemma skeleton_copy:
  "skeleton (copy_shape sh b) = skeleton sh"
  "map (\<lambda>kc. (fst kc, skeleton (snd kc))) (copy_list kvs b) =
     map (\<lambda>kc. (fst kc, skeleton (snd kc))) kvs"
  by (induction sh b and kvs b rule: copy_shape_copy_list.induct) simp_all

lemma flags_copy:
  "list_all (\<lambda>f. \<not> f) (flags (copy_shape sh b))"
  "list_all (\<lambda>f. \<not> f) (concat (map (\<lambda>kc. flags (snd kc)) (copy_list kvs b)))"
  by (induction sh b and kvs b rule: copy_shape_copy_list.induct) simp_all

lemma shape_at_node_obj:
  "shape_at h sh \<Longrightarrow> x \<in> set (addrs sh) \<Longrightarrow> list_all (\<lambda>f. \<not> f) (flags sh) \<Longrightarrow>
     \<exists>ob. obj_at h x = Some ob \<and> \<not> frozen ob \<and> kind ob = PlainObject"
proof (induction sh)
  case (Leaf v)
  then show ?case by simp
next
  case (Node a fr kvs)
  show ?case
  proof (cases "x = a")
    case True
    then show ?thesis using Node.prems by auto
  next
    case False
    then obtain kc where kc: "kc \<in> set kvs" "x \<in> set (addrs (snd kc))"
      using Node.prems(2) by auto
    then have "shape_at h (snd kc)" "list_all (\<lambda>f. \<not> f) (flags (snd kc))"
      using Node.prems(1,3) by (auto simp: list_all_iff)
    with Node.IH [of kc "snd kc"] kc show ?thesis
      by (cases kc) auto
  qed
qed


section \<open>freeze followed by unfreeze\<close>






section \<open>freeze on a frozen mapping, and reset on a guarded Bag\<close>

text \<open>
  Claim C4 (idempotence of \<open>freeze\<close>) fails on \<open>m = {a: {}}\<close>: the first call returns
  \<open>m\<close> with both objects frozen, the second call ends in a TypeError, because
  \<open>object[key] = freeze(value)\<close> assigns to the frozen \<open>m\<close> in strict code. The heap is
  not changed by the second call.
\<close>

theorem freeze_twice_raises:
  "freeze (Suc (Suc n)) (VRef 1) ex4_heap = Some (Inr (VRef 1), ex4_frozen)
   \<and> freeze (Suc (Suc n)) (VRef 1) ex4_frozen = Some (Inl TypeError, ex4_frozen)"
  by (simp add: model_eval ex4_heap_def ex4_frozen_def)

text \<open>
  Claim C2 (a true guarded flag means frozen attributes) fails after \<open>reset\<close>: on the
  guarded Bag made from \<open>{a: 1}\<close>, \<open>reset({b: 2})\<close> installs a new attributes object that
  is not frozen and leaves \<open>isGuarded()\<close> true; the next \<open>set\<close> writes into it.
\<close>

theorem reset_keeps_guarded_flag:
  "Bag_constructor (Suc n) md (VRef 0) True None ex2_heap = Some (Inr (), ex2_guarded)
   \<and> Bag_isGuarded ex2_guarded = VBool True
   \<and> Bag_reset (Suc n) md (VRef 1) False ex2_guarded = Some (Inr (), ex2_reset)
   \<and> Bag_isGuarded ex2_reset = VBool True
   \<and> obj_at (heap ex2_reset) 3 =
        Some \<lparr>kind = PlainObject, frozen = False, props = [(''b'', VNum 2)]\<rparr>
   \<and> fst (Bag_set md (Some ''b'') (VNum 3) ex2_reset) = Inr ()
   \<and> Bag_get (Some ''b'') VUndefined (snd (Bag_set md (Some ''b'') (VNum 3) ex2_reset)) = VNum 3"
  by (simp add: model_eval ex2_heap_def ex2_guarded_def ex2_reset_def)


section \<open>set followed by get\<close>

lemma isObject_iff: "isObject v \<longleftrightarrow> (\<exists>c. v = VRef c)"
  by (cases v) simp_all

lemma nullish_not_object: "isObject v \<Longrightarrow> \<not> nullish v"
  by (cases v) simp_all

lemma has_own_if_defined: "get_prop h w k \<noteq> VUndefined \<Longrightarrow> has_own h w k"
  using has_own_get_prop by blast

lemma unfrozen_atD: "unfrozen_at h a \<Longrightarrow> \<exists>ob. obj_at h a = Some ob \<and> \<not> frozen ob"
  by (auto simp: unfrozen_at_def split: option.splits)

lemma baseSet_loop_step_object:
  assumes "rest \<noteq> []" "isObject (get_prop h (VRef a) k)" "\<not> unsafe_key k"
  shows "baseSet_loop md (VRef a) (k # rest) value h =
     (case assignValue md (VRef a) k (get_prop h (VRef a) k) h of
        (Inl e, h2) \<Rightarrow> (Inl e, h2)
      | (Inr u, h2) \<Rightarrow> baseSet_loop md (get_prop h2 (VRef a) k) rest value h2)"
  using assms by simp

lemma baseSet_loop_step_fresh:
  assumes "rest \<noteq> []" "\<not> isObject (get_prop h (VRef a) k)" "\<not> unsafe_key k"
  shows "baseSet_loop md (VRef a) (k # rest) value h =
     (case assignValue md (VRef a) k (VRef (length h))
             (h @ [if isIndex (hd rest) then empty_array else empty_object]) of
        (Inl e, h2) \<Rightarrow> (Inl e, h2)
      | (Inr u, h2) \<Rightarrow> baseSet_loop md (get_prop h2 (VRef a) k) rest value h2)"
  using assms by (simp add: alloc_def)

lemma baseSet_loop_then_get:
  assumes "path \<noteq> []" "distinct (walk h (VRef a) path)"
    and "list_all (unfrozen_at h) (walk h (VRef a) path)"
    and "list_all (\<lambda>k. \<not> unsafe_key k) path"
  shows "\<exists>h'. baseSet_loop md (VRef a) path value h = (Inr (), h')
           \<and> baseGet_loop h' (VRef a) path = value
           \<and> hasPath h' (VRef a) path
           \<and> length h \<le> length h'
           \<and> (\<forall>x < length h. x \<notin> set (walk h (VRef a) path) \<longrightarrow> h' ! x = h ! x)
           \<and> (\<forall>k'. k' \<noteq> hd path \<longrightarrow> has_own h' (VRef a) k' = has_own h (VRef a) k')
           \<and> has_own h' (VRef a) (hd path)"
  using assms
proof (induction path arbitrary: a h)
  case Nil
  then show ?case by simp
next
  case (Cons k rest)
  from Cons.prems(3) obtain ob where ob: "obj_at h a = Some ob" "\<not> frozen ob"
    by (auto dest: unfrozen_atD)
  have ah: "a < length h"
    using ob(1) by (rule obj_at_Some_less)
  have safe: "\<not> unsafe_key k" "list_all (\<lambda>k. \<not> unsafe_key k) rest"
    using Cons.prems(4) by simp_all
  show ?case
  proof (cases rest)
    case Nil
    from baseSet_loop_single [OF ob safe(1), of md "value"] obtain h' where
      L: "baseSet_loop md (VRef a) [k] value h = (Inr (), h')" "length h' = length h"
        "\<forall>b. b \<noteq> a \<longrightarrow> obj_at h' b = obj_at h b"
        "\<forall>w k'. get_prop h' w k' = (if w = VRef a \<and> k' = k then value else get_prop h w k')"
        "\<forall>w k'. has_own h' w k' \<longleftrightarrow> (w = VRef a \<and> k' = k) \<or> has_own h w k'"
      by blast
    have "\<forall>x < length h. x \<notin> set (walk h (VRef a) [k]) \<longrightarrow> h' ! x = h ! x"
      using L(2,3) by (auto simp: obj_at_def split: if_splits)
    then show ?thesis
      using L Nil by simp
  next
    case (Cons k2 rest2)
    define objValue where "objValue = get_prop h (VRef a) k"
    show ?thesis
    proof (cases "isObject objValue")
      case True
      then obtain c where c: "objValue = VRef c"
        by (auto simp: isObject_iff)
      have own: "has_own h (VRef a) k"
        using c by (intro has_own_if_defined) (simp add: objValue_def [symmetric])
      have av: "assignValue md (VRef a) k objValue h = (Inr (), h)"
        using own by (simp add: assignValue_def objValue_def)
      have w: "walk h (VRef a) (k # rest) = a # walk h (VRef c) rest"
        using c by (simp add: objValue_def [symmetric])
      have "\<exists>h'. baseSet_loop md (VRef c) rest value h = (Inr (), h')
           \<and> baseGet_loop h' (VRef c) rest = value
           \<and> hasPath h' (VRef c) rest
           \<and> length h \<le> length h'
           \<and> (\<forall>x < length h. x \<notin> set (walk h (VRef c) rest) \<longrightarrow> h' ! x = h ! x)
           \<and> (\<forall>k'. k' \<noteq> hd rest \<longrightarrow> has_own h' (VRef c) k' = has_own h (VRef c) k')
           \<and> has_own h' (VRef c) (hd rest)"
        using Cons.prems w Cons by (intro Cons.IH) auto
      then obtain h' where
        IH: "baseSet_loop md (VRef c) rest value h = (Inr (), h')"
          "baseGet_loop h' (VRef c) rest = value" "hasPath h' (VRef c) rest"
          "length h \<le> length h'"
          "\<forall>x < length h. x \<notin> set (walk h (VRef c) rest) \<longrightarrow> h' ! x = h ! x"
        by blast
      have "distinct (a # walk h (VRef c) rest)"
        using Cons.prems(2) by (simp only: w)
      then have "a \<notin> set (walk h (VRef c) rest)"
        by simp
      then have same: "h' ! a = h ! a"
        using IH(5) ah by simp
      have ah': "a < length h'"
        using ah IH(4) by simp
      have gp: "get_prop h' (VRef a) k' = get_prop h (VRef a) k'" for k'
        using ah ah' same by (rule get_prop_same_obj)
      have ho: "has_own h' (VRef a) k' = has_own h (VRef a) k'" for k'
        using ah ah' same by (simp add: has_own.simps obj_at_def)
      have ne: "rest \<noteq> []"
        using Cons by simp
      have r1: "baseSet_loop md (VRef a) (k # rest) value h = (Inr (), h')"
        using baseSet_loop_step_object [OF ne _ safe(1), of h a md "value"] av IH(1) True c
        by (simp add: objValue_def [symmetric] del: baseSet_loop.simps)
      have r2: "baseGet_loop h' (VRef a) (k # rest) = value"
        using IH(2) gp c by (simp add: objValue_def)
      have r3: "hasPath h' (VRef a) (k # rest)"
        using IH(3) gp ho own c Cons by (simp add: objValue_def)
      have r5: "\<forall>x < length h. x \<notin> set (walk h (VRef a) (k # rest)) \<longrightarrow> h' ! x = h ! x"
        using IH(5) w by simp
      from r1 r2 r3 IH(4) r5 ho own show ?thesis by simp
    next
      case False
      define new where "new = (if isIndex (hd rest) then empty_array else empty_object)"
      define c where "c = length h"
      define h1 where "h1 = h @ [new]"
      have w: "walk h (VRef a) (k # rest) = [a]"
        using False by (simp add: objValue_def)
      have ob1: "obj_at h1 a = Some ob"
        using ob(1) by (simp add: h1_def obj_at_append_Some)
      from assignValue_effect [OF ob1 ob(2), of md k "VRef c"] obtain h2 ob2 where
        A: "assignValue md (VRef a) k (VRef c) h1 = (Inr (), h2)" "length h2 = length h1"
          "obj_at h2 a = Some ob2"
          "\<forall>b. b \<noteq> a \<longrightarrow> obj_at h2 b = obj_at h1 b"
          "\<forall>w k'. get_prop h2 w k' = (if w = VRef a \<and> k' = k then VRef c else get_prop h1 w k')"
          "\<forall>w k'. has_own h2 w k' \<longleftrightarrow> (w = VRef a \<and> k' = k) \<or> has_own h1 w k'"
        by blast
      have ca: "c \<noteq> a"
        using ah by (simp add: c_def)
      have newc: "obj_at h2 c = Some new"
        using A(4) ca by (simp add: h1_def c_def obj_at_def)
      have nf: "\<not> frozen new" "props new = []"
        by (simp_all add: new_def empty_array_def empty_object_def)
      have gc: "get_prop h2 (VRef c) k' = VUndefined" for k'
        using newc nf by (simp add: get_prop.simps)
      have w2: "walk h2 (VRef c) rest = [c]"
        using Cons gc by simp
      have "\<exists>h'. baseSet_loop md (VRef c) rest value h2 = (Inr (), h')
           \<and> baseGet_loop h' (VRef c) rest = value
           \<and> hasPath h' (VRef c) rest
           \<and> length h2 \<le> length h'
           \<and> (\<forall>x < length h2. x \<notin> set (walk h2 (VRef c) rest) \<longrightarrow> h' ! x = h2 ! x)
           \<and> (\<forall>k'. k' \<noteq> hd rest \<longrightarrow> has_own h' (VRef c) k' = has_own h2 (VRef c) k')
           \<and> has_own h' (VRef c) (hd rest)"
        using w2 newc nf Cons safe(2) by (intro Cons.IH) (auto simp: unfrozen_at_def)
      then obtain h' where
        IH: "baseSet_loop md (VRef c) rest value h2 = (Inr (), h')"
          "baseGet_loop h' (VRef c) rest = value" "hasPath h' (VRef c) rest"
          "length h2 \<le> length h'"
          "\<forall>x < length h2. x \<notin> set (walk h2 (VRef c) rest) \<longrightarrow> h' ! x = h2 ! x"
        by blast
      have a2: "a < length h2"
        using ah A(2) by (simp add: h1_def)
      have same: "h' ! a = h2 ! a"
        using IH(5) a2 ca w2 by simp
      have ah': "a < length h'"
        using a2 IH(4) by simp
      have gp: "get_prop h' (VRef a) k' = get_prop h2 (VRef a) k'" for k'
        using a2 ah' same by (rule get_prop_same_obj)
      have ho: "has_own h' (VRef a) k' = has_own h2 (VRef a) k'" for k'
        using a2 ah' same by (simp add: has_own.simps obj_at_def)
      have ho1: "has_own h1 (VRef a) k' = has_own h (VRef a) k'" for k'
        using ob(1) ob1 by (simp add: has_own.simps)
      have ne: "rest \<noteq> []"
        using Cons by simp
      have r1: "baseSet_loop md (VRef a) (k # rest) value h = (Inr (), h')"
        using baseSet_loop_step_fresh [OF ne _ safe(1), of h a md "value"] A(1,5) IH(1) False
        by (simp add: objValue_def [symmetric] new_def h1_def c_def del: baseSet_loop.simps)
      have r2: "baseGet_loop h' (VRef a) (k # rest) = value"
        using IH(2) gp A(5) by simp
      have r3: "hasPath h' (VRef a) (k # rest)"
        using IH(3) gp ho A(5,6) Cons by simp
      have r4: "length h \<le> length h'"
        using IH(4) A(2) by (simp add: h1_def)
      have r5: "\<forall>x < length h. x \<notin> set (walk h (VRef a) (k # rest)) \<longrightarrow> h' ! x = h ! x"
      proof (intro allI impI)
        fix x assume x: "x < length h" "x \<notin> set (walk h (VRef a) (k # rest))"
        then have xa: "x \<noteq> a" "x \<noteq> c" "x < length h2"
          using w A(2) by (auto simp: c_def h1_def)
        then have "h' ! x = h2 ! x"
          using IH(5) w2 by simp
        also have "h2 ! x = h1 ! x"
          using A(4) xa A(2) by (auto simp: obj_at_def split: if_splits)
        also have "h1 ! x = h ! x"
          using x(1) by (simp add: h1_def nth_append)
        finally show "h' ! x = h ! x" .
      qed
      have r6: "\<forall>k'. k' \<noteq> hd (k # rest) \<longrightarrow> has_own h' (VRef a) k' = has_own h (VRef a) k'"
        using ho A(6) ho1 by simp
      have r7: "has_own h' (VRef a) (hd (k # rest))"
        using ho A(6) by simp
      from r1 r2 r3 r4 r5 r6 r7 show ?thesis by blast
    qed
  qed
qed


lemma stringToPath_nonempty: "stringToPath s \<noteq> []"
  by (induction s) (auto split: list.splits)

lemma stringToPath_segments: "seg \<in> set (stringToPath s) \<Longrightarrow> CHR ''.'' \<notin> set seg"
proof (induction s arbitrary: seg)
  case Nil
  then show ?case by simp
next
  case (Cons c cs)
  show ?case
  proof (cases "c = CHR ''.''")
    case True
    then have "seg = [] \<or> seg \<in> set (stringToPath cs)"
      using Cons.prems by simp
    then show ?thesis
      using Cons.IH by auto
  next
    case False
    obtain w ws where w: "stringToPath cs = w # ws"
      using stringToPath_nonempty [of cs] by (cases "stringToPath cs") auto
    then have "seg = c # w \<or> seg \<in> set ws"
      using Cons.prems False by simp
    moreover have "CHR ''.'' \<notin> set w"
      using Cons.IH [of w] w by simp
    moreover have "seg \<in> set ws \<Longrightarrow> CHR ''.'' \<notin> set seg"
      using Cons.IH [of seg] w by simp
    ultimately show ?thesis
      using False by auto
  qed
qed

lemma hd_stringToPath: "CHR ''.'' \<in> set s \<Longrightarrow> hd (stringToPath s) \<noteq> s"
proof
  assume d: "CHR ''.'' \<in> set s" and e: "hd (stringToPath s) = s"
  have "hd (stringToPath s) \<in> set (stringToPath s)"
    using stringToPath_nonempty [of s] by simp
  then have "CHR ''.'' \<notin> set (hd (stringToPath s))"
    by (rule stringToPath_segments)
  with d e show False by simp
qed

lemma castPath_nonempty: "castPath h v k \<noteq> []"
proof (cases k)
  case None
  then show ?thesis by simp
next
  case (Some s)
  then show ?thesis
    using stringToPath_nonempty [of s] by (cases "isKey h v s") simp_all
qed

lemma castPath_after_set:
  assumes "\<forall>k'. k' \<noteq> hd (castPath h v k) \<longrightarrow> has_own h' v k' = has_own h v k'"
    and "has_own h' v (hd (castPath h v k))"
  shows "castPath h' v k = castPath h v k"
proof (cases k)
  case None
  then show ?thesis by simp
next
  case (Some s)
  show ?thesis
  proof (cases "isKey h v s")
    case True
    then have cp: "castPath h v k = [s]"
      using Some by simp
    then have "has_own h' v s"
      using assms(2) by simp
    then have "isKey h' v s"
      by (simp add: isKey_def)
    then show ?thesis
      using cp Some by simp
  next
    case False
    then have dot: "CHR ''.'' \<in> set s" and no: "\<not> has_own h v s"
      by (auto simp: isKey_def)
    have cp: "castPath h v k = stringToPath s"
      using False Some by simp
    have "hd (castPath h v k) \<noteq> s"
      unfolding cp using dot by (rule hd_stringToPath)
    then have "has_own h' v s = has_own h v s"
      using spec [OF assms(1), of s] by simp
    then have "\<not> isKey h' v s"
      using no dot by (simp add: isKey_def)
    then show ?thesis
      using cp Some by simp
  qed
qed

lemma get_prop_append: "a < length h \<Longrightarrow> get_prop (h @ g) (VRef a) k = get_prop h (VRef a) k"
  by (simp add: get_prop.simps obj_at_def nth_append)

lemma has_own_append: "a < length h \<Longrightarrow> has_own (h @ g) (VRef a) k = has_own h (VRef a) k"
  by (simp add: has_own.simps obj_at_def nth_append)




lemma castPath_append: "a < length h \<Longrightarrow> castPath (h @ g) (VRef a) k = castPath h (VRef a) k"
  by (cases k) (simp_all add: isKey_def has_own_append)

lemma name_ok_safe: "name_ok seg \<Longrightarrow> \<not> unsafe_key seg"
  by (auto simp: name_ok_def unsafe_key_def reserved_names_def)

lemma key_ok_safe: "key_ok k \<Longrightarrow> list_all (\<lambda>seg. \<not> unsafe_key seg) (castPath h v k)"
proof (cases k)
  case None
  then show ?thesis by (simp add: unsafe_key_def)
next
  case (Some s)
  assume "key_ok k"
  then have "list_all name_ok (s # stringToPath s)"
    using Some by (simp add: key_ok_def)
  then show ?thesis
    using Some by (auto simp: list_all_iff dest: name_ok_safe)
qed

text \<open>set followed by get, on the heap the value was prepared in.\<close>

lemma lodash_set_then_get:
  assumes "distinct (walk h (VRef a) (castPath h (VRef a) k))"
    and "list_all (unfrozen_at h) (walk h (VRef a) (castPath h (VRef a) k))"
    and "key_ok k"
  shows "\<exists>h'. lodash_set md (VRef a) k value h = (Inr (), h')
           \<and> lodash_get h' (VRef a) k d = (if value = VUndefined then d else value)
           \<and> lodash_has h' (VRef a) k
           \<and> length h \<le> length h'
           \<and> (\<forall>x < length h. x \<notin> set (walk h (VRef a) (castPath h (VRef a) k)) \<longrightarrow>
                 h' ! x = h ! x)"
proof -
  define P where "P = castPath h (VRef a) k"
  have ne: "P \<noteq> []"
    by (simp add: P_def castPath_nonempty)
  have safe: "list_all (\<lambda>seg. \<not> unsafe_key seg) P"
    unfolding P_def using assms(3) by (rule key_ok_safe)
  from baseSet_loop_then_get [OF ne _ _ safe, of h a md "value"] assms(1,2) obtain h' where
    L: "baseSet_loop md (VRef a) P value h = (Inr (), h')"
      "baseGet_loop h' (VRef a) P = value" "hasPath h' (VRef a) P" "length h \<le> length h'"
      "\<forall>x < length h. x \<notin> set (walk h (VRef a) P) \<longrightarrow> h' ! x = h ! x"
      "\<forall>k'. k' \<noteq> hd P \<longrightarrow> has_own h' (VRef a) k' = has_own h (VRef a) k'"
      "has_own h' (VRef a) (hd P)"
    unfolding P_def by blast
  have cp: "castPath h' (VRef a) k = P"
    using castPath_after_set [of h "VRef a" k h'] L(6,7) by (simp add: P_def)
  have "lodash_set md (VRef a) k value h = (Inr (), h')"
    using L(1) by (simp add: lodash_set_def baseSet_def P_def)
  moreover have "lodash_get h' (VRef a) k d = (if value = VUndefined then d else value)"
    using L(2) cp ne by (simp add: lodash_get_def baseGet_def baseGet_path_def)
  moreover have "lodash_has h' (VRef a) k"
    using L(3) cp by (simp add: lodash_has_def)
  ultimately show ?thesis
    using L(4,5) by (auto simp: P_def)
qed





section \<open>freeze changes frozen flags only, and sets them below its argument\<close>

lemma same_struct_refl [simp]: "same_struct h h"
  by (simp add: same_struct_def)

lemma same_struct_trans: "same_struct h h1 \<Longrightarrow> same_struct h1 h2 \<Longrightarrow> same_struct h h2"
  by (auto simp: same_struct_def)

lemma same_struct_marks: "same_struct h (marks A h)"
  by (simp add: same_struct_def nth_marks)

lemma same_struct_reads:
  assumes "same_struct h h'"
  shows "get_prop h' v k = get_prop h v k" "has_own h' v k = has_own h v k"
    "isPlainObject h' v = isPlainObject h v" "ownKeys h' v = ownKeys h v"
  using assms
  by (cases v; auto simp: same_struct_def get_prop.simps has_own.simps isPlainObject.simps
      ownKeys.simps obj_at_def)+

lemma same_struct_frozen_at: "same_struct h h' \<Longrightarrow> frozen_at h a \<Longrightarrow> frozen_at h' a"
  by (auto simp: same_struct_def frozen_at_def obj_at_def split: if_splits)

lemma deep_frozen_same_struct:
  "same_struct h h' \<Longrightarrow> deep_frozen n h v \<Longrightarrow> deep_frozen n h' v"
proof (induction n arbitrary: v)
  case 0
  then show ?case by simp
next
  case (Suc n)
  show ?case
  proof (cases "ownKeys h v")
    case (Inl e)
    then show ?thesis using Suc.prems by simp
  next
    case (Inr keys)
    have "list_all (\<lambda>k. isPlainObject h' (get_prop h' v k) \<longrightarrow> deep_frozen n h' (get_prop h' v k))
        keys"
      using Suc.prems Inr Suc.IH [OF Suc.prems(1)]
      by (auto simp: list_all_iff same_struct_reads [OF Suc.prems(1)])
    then show ?thesis
      using Suc.prems Inr same_struct_frozen_at [OF Suc.prems(1)]
      by (auto simp: same_struct_reads [OF Suc.prems(1)])
  qed
qed

lemma put_prop_same_value:
  assumes "get_prop h obj k = v" "isObject v"
  shows "snd (put_prop md obj k v h) = h"
proof (cases obj)
  case (VRef a)
  show ?thesis
  proof (cases "obj_at h a")
    case None
    then show ?thesis by (simp add: VRef put_prop.simps)
  next
    case (Some ob)
    have "map_of (props ob) k = Some v"
      using assms Some VRef by (cases v) (auto simp: get_prop.simps split: option.splits)
    then have "AList.update k v (props ob) = props ob"
      by (rule update_triv)
    moreover have "h[a := ob] = h"
      using Some by (auto simp: obj_at_def split: if_splits)
    ultimately show ?thesis
      using Some by (cases md) (simp_all add: VRef put_prop.simps)
  qed
qed (cases md; simp add: put_prop.simps)+


lemma assign_prop_same_value:
  assumes "get_prop h obj k = v" "isObject v"
  shows "snd (assign_prop obj k v h) = h"
proof (cases "\<exists>a ob. obj = VRef a \<and> obj_at h a = Some ob \<and> k = ''__proto__''
    \<and> k \<notin> set (map fst (props ob))")
  case True
  then show ?thesis
    by (auto simp: assign_prop.simps)
next
  case False
  then have "assign_prop obj k v h = put_prop Strict obj k v h
      \<or> assign_prop obj k v h = (Inl TypeError, h) \<or> assign_prop obj k v h = (Inr (), h)"
    by (cases obj) (auto simp: assign_prop.simps split: option.splits)
  then show ?thesis
    using put_prop_same_value [OF assms] by auto
qed

lemma freeze_keys_struct:
  assumes "\<And>v h r h'. freeze n v h = Some (r, h') \<Longrightarrow>
             same_struct h h' \<and> (\<forall>x. r = Inr x \<longrightarrow> x = v)"
    and "freeze_keys n obj keys h = Some (r, h')"
  shows "same_struct h h'"
  using assms(2)
proof (induction keys arbitrary: h)
  case Nil
  then show ?case by simp
next
  case (Cons k keys)
  define v where "v = get_prop h obj k"
  show ?case
  proof (cases "isPlainObject h v")
    case False
    then have "freeze_keys n obj keys h = Some (r, h')"
      using Cons.prems by (simp add: v_def)
    then show ?thesis by (rule Cons.IH)
  next
    case True
    then obtain r1 h1 where f: "freeze n v h = Some (r1, h1)"
      using Cons.prems by (cases "freeze n v h") (auto simp: v_def)
    from assms(1) [OF f] have s1: "same_struct h h1" and r1: "\<forall>x. r1 = Inr x \<longrightarrow> x = v"
      by auto
    show ?thesis
    proof (cases r1)
      case (Inl e)
      then have "h' = h1"
        using Cons.prems True f by (simp add: v_def)
      with s1 show ?thesis by simp
    next
      case (Inr x)
      then have x: "x = v" using r1 by simp
      have obj: "isObject v"
        using True by (cases v) (simp_all add: isPlainObject.simps)
      have "get_prop h1 obj k = v"
        using same_struct_reads(1) [OF s1] by (simp add: v_def)
      then have h2: "snd (assign_prop obj k v h1) = h1"
        using obj by (rule assign_prop_same_value)
      obtain r2 where p: "assign_prop obj k v h1 = (r2, h1)"
        using h2 by (cases "assign_prop obj k v h1") auto
      show ?thesis
      proof (cases r2)
        case (Inl e)
        then have "h' = h1"
          using Cons.prems True f Inr x p by (simp add: v_def)
        with s1 show ?thesis by simp
      next
        case (Inr u)
        then have "freeze_keys n obj keys h1 = Some (r, h')"
          using Cons.prems True f \<open>r1 = Inr x\<close> x p by (simp add: v_def)
        then have "same_struct h1 h'" by (rule Cons.IH)
        with s1 show ?thesis by (rule same_struct_trans)
      qed
    qed
  qed
qed

lemma freeze_struct:
  "freeze n v h = Some (r, h') \<Longrightarrow> same_struct h h' \<and> (\<forall>x. r = Inr x \<longrightarrow> x = v)"
proof (induction n arbitrary: v h r h')
  case 0
  then show ?case by simp
next
  case (Suc n)
  show ?case
  proof (cases "ownKeys h v")
    case (Inl e)
    then show ?thesis using Suc.prems by auto
  next
    case (Inr keys)
    then obtain r1 h1 where k: "freeze_keys n v keys h = Some (r1, h1)"
      using Suc.prems by (cases "freeze_keys n v keys h") auto
    have s1: "same_struct h h1"
      using Suc.IH k by (rule freeze_keys_struct)
    show ?thesis
    proof (cases r1)
      case (Inl e)
      then show ?thesis
        using Suc.prems Inr k s1 by auto
    next
      case r1: (Inr u)
      obtain a where a: "v = VRef a"
        using Inr by (cases v) (simp_all add: ownKeys.simps)
      have "same_struct h1 (Object_freeze v h1)"
        by (simp add: a Object_freeze_marks same_struct_marks)
      with s1 have "same_struct h (Object_freeze v h1)"
        by (rule same_struct_trans)
      then show ?thesis
        using Suc.prems Inr k r1 by auto
    qed
  qed
qed

lemma freeze_keys_deep:
  assumes "\<And>v h r h'. freeze n v h = Some (Inr r, h') \<Longrightarrow> deep_frozen n h' v"
    and "freeze_keys n obj keys h = Some (Inr (), h')"
  shows "\<forall>k \<in> set keys. isPlainObject h (get_prop h obj k) \<longrightarrow>
           deep_frozen n h' (get_prop h obj k)"
  using assms(2)
proof (induction keys arbitrary: h)
  case Nil
  then show ?case by simp
next
  case (Cons k keys)
  define v where "v = get_prop h obj k"
  show ?case
  proof (cases "isPlainObject h v")
    case False
    then have "freeze_keys n obj keys h = Some (Inr (), h')"
      using Cons.prems by (simp add: v_def)
    from Cons.IH [OF this] False show ?thesis
      by (simp add: v_def)
  next
    case True
    then obtain r1 h1 where f: "freeze n v h = Some (r1, h1)"
      using Cons.prems by (cases "freeze n v h") (auto simp: v_def)
    from freeze_struct [OF f] have s1: "same_struct h h1" and r1: "\<forall>x. r1 = Inr x \<longrightarrow> x = v"
      by auto
    obtain x where x: "r1 = Inr x"
      using Cons.prems True f by (cases r1) (auto simp: v_def)
    then have xv: "x = v" using r1 by simp
    have obj: "isObject v"
      using True by (cases v) (simp_all add: isPlainObject.simps)
    have "get_prop h1 obj k = v"
      using same_struct_reads(1) [OF s1] by (simp add: v_def)
    then have "snd (assign_prop obj k v h1) = h1"
      using obj by (rule assign_prop_same_value)
    then obtain r2 where p: "assign_prop obj k v h1 = (r2, h1)"
      by (cases "assign_prop obj k v h1") auto
    have rest: "freeze_keys n obj keys h1 = Some (Inr (), h')"
      using Cons.prems True f x xv p by (cases r2) (auto simp: v_def)
    have s2: "same_struct h1 h'"
      using freeze_struct rest by (rule freeze_keys_struct)
    have d1: "deep_frozen n h1 v"
      using assms(1) f x by simp
    have dv: "deep_frozen n h' v"
      using s2 d1 by (rule deep_frozen_same_struct)
    have "\<forall>k \<in> set keys. isPlainObject h (get_prop h obj k) \<longrightarrow>
           deep_frozen n h' (get_prop h obj k)"
      using Cons.IH [OF rest] by (simp add: same_struct_reads [OF s1])
    with dv show ?thesis
      by (simp add: v_def)
  qed
qed

lemma freeze_deep: "freeze n v h = Some (Inr r, h') \<Longrightarrow> deep_frozen n h' v"
proof (induction n arbitrary: v h r h')
  case 0
  then show ?case by simp
next
  case (Suc n)
  obtain keys where keys: "ownKeys h v = Inr keys"
    using Suc.prems by (cases "ownKeys h v") auto
  obtain a where a: "v = VRef a"
    using keys by (cases v) (simp_all add: ownKeys.simps)
  obtain h1 where k: "freeze_keys n v keys h = Some (Inr (), h1)"
    and h': "h' = Object_freeze v h1"
    using Suc.prems keys
    by (cases "freeze_keys n v keys h")
      (auto split: sum.splits prod.splits)
  have s1: "same_struct h h1"
    using freeze_struct k by (rule freeze_keys_struct)
  have s2: "same_struct h1 h'"
    by (simp add: h' a Object_freeze_marks same_struct_marks)
  have s: "same_struct h h'"
    using s1 s2 by (rule same_struct_trans)
  have valid: "a < length h"
    using keys a by (auto simp: ownKeys.simps obj_at_def split: if_splits)
  have "a < length h1"
    using valid s1 by (simp add: same_struct_def)
  then have fa: "frozen_at h' a"
    by (simp add: h' a Object_freeze_marks frozen_at_def obj_at_def nth_marks)
  have "\<forall>k \<in> set keys. isPlainObject h (get_prop h v k) \<longrightarrow> deep_frozen n h1 (get_prop h v k)"
    using Suc.IH k by (rule freeze_keys_deep)
  then have "\<forall>k \<in> set keys. isPlainObject h (get_prop h v k) \<longrightarrow> deep_frozen n h' (get_prop h v k)"
    using deep_frozen_same_struct [OF s2] by blast
  then show ?case
    using keys fa a by (simp add: same_struct_reads [OF s] list_all_iff)
qed


section \<open>lodash writes on frozen objects\<close>

lemma frozen_atD: "frozen_at h a \<Longrightarrow> \<exists>ob. obj_at h a = Some ob \<and> frozen ob"
  by (auto simp: frozen_at_def split: option.splits)

lemma has_own_keys: "has_own h v k \<Longrightarrow> ownKeys h v = Inr ks \<Longrightarrow> k \<in> set ks"
  by (cases v) (auto simp: has_own.simps ownKeys.simps split: option.splits)

lemma walk_frozen:
  "deep_frozen n h (VRef a) \<Longrightarrow> list_all (plain_at h) (walk h (VRef a) P) \<Longrightarrow>
     list_all (frozen_at h) (walk h (VRef a) P)"
proof (induction P arbitrary: n a)
  case Nil
  show ?case by simp
next
  case (Cons k rest)
  obtain m where n: "n = Suc m"
    using Cons.prems(1) by (cases n) auto
  obtain keys where keys: "ownKeys h (VRef a) = Inr keys"
    using Cons.prems(1) n by (cases "ownKeys h (VRef a)") auto
  have fa: "frozen_at h a"
    and ch: "\<forall>k \<in> set keys. isPlainObject h (get_prop h (VRef a) k) \<longrightarrow>
               deep_frozen m h (get_prop h (VRef a) k)"
    using Cons.prems(1) n keys by (auto simp: list_all_iff)
  show ?case
  proof (cases "isObject (get_prop h (VRef a) k) \<and> rest \<noteq> []")
    case False
    then have "walk h (VRef a) (k # rest) = [a]"
      by (cases rest) auto
    with fa show ?thesis by simp
  next
    case True
    then obtain c where c: "get_prop h (VRef a) k = VRef c"
      by (auto simp: isObject_iff)
    obtain k2 rest2 where rest: "rest = k2 # rest2"
      using True by (cases rest) auto
    have w: "walk h (VRef a) (k # rest) = a # walk h (VRef c) rest"
      using c by simp
    have "c \<in> set (walk h (VRef c) rest)"
      by (simp add: rest)
    then have pc: "isPlainObject h (VRef c)"
      using Cons.prems(2) unfolding w by (auto simp: list_all_iff plain_at_def)
    have "has_own h (VRef a) k"
      using c by (intro has_own_if_defined) simp
    then have "k \<in> set keys"
      using keys by (rule has_own_keys)
    then have "deep_frozen m h (VRef c)"
      using ch pc c by auto
    moreover have "list_all (plain_at h) (walk h (VRef c) rest)"
      using Cons.prems(2) unfolding w by simp
    ultimately have "list_all (frozen_at h) (walk h (VRef c) rest)"
      by (rule Cons.IH)
    with fa show ?thesis
      unfolding w by simp
  qed
qed

lemma baseAssignValue_other:
  "k \<noteq> ''__proto__'' \<Longrightarrow> baseAssignValue md obj k v h = put_prop md obj k v h"
  by (simp add: baseAssignValue_def)

lemma safe_not_proto: "\<not> unsafe_key k \<Longrightarrow> k \<noteq> ''__proto__''"
  by (auto simp: unsafe_key_def)

lemma baseSet_loop_primitive:
  "\<not> isObject v \<Longrightarrow>
     \<exists>r g. baseSet_loop md v path value h = (r, h @ g) \<and> (md = Sloppy \<longrightarrow> r = Inr ())"
proof (induction path arbitrary: v h)
  case Nil
  show ?case by simp
next
  case (Cons k rest)
  show ?case
  proof (cases "nullish v")
    case True
    then show ?thesis by simp
  next
    case False
    show ?thesis
    proof (cases "unsafe_key k")
      case True
      then have "baseSet_loop md v (k # rest) value h = (Inr (), h @ [])"
        using False by simp
      then show ?thesis by blast
    next
      case safe: False
      have gp: "get_prop H v k' = VUndefined" "\<not> has_own H v k'" for H k'
        using Cons.prems by (cases v; simp add: get_prop.simps has_own.simps)+
      have ref: "put_prop md v k x H = refused md H" for x H
        using Cons.prems False by (cases v) (simp_all add: put_prop.simps)
      define h1 where "h1 = (if rest = [] then h
          else h @ [if isIndex (hd rest) then empty_array else empty_object])"
      define nv where "nv = (if rest = [] then value else VRef (length h))"
      have step: "baseSet_loop md v (k # rest) value h =
          (case assignValue md v k nv h1 of
             (Inl e, h2) \<Rightarrow> (Inl e, h2)
           | (Inr u, h2) \<Rightarrow> baseSet_loop md (get_prop h2 v k) rest value h2)"
        using False safe by (simp add: gp alloc_def h1_def nv_def)
      have av: "assignValue md v k nv h1 = refused md h1"
        using safe_not_proto [OF safe] by (simp add: assignValue_def baseAssignValue_other gp ref)
      obtain g1 where g1: "h1 = h @ g1"
        by (cases "rest = []") (simp_all add: h1_def)
      show ?thesis
      proof (cases md)
        case Strict
        then show ?thesis
          using step av g1 by simp
      next
        case Sloppy
        have "baseSet_loop md VUndefined rest value h1 = (Inr (), h1)"
          by (cases rest) simp_all
        then show ?thesis
          using step av g1 Sloppy by (simp add: gp)
      qed
    qed
  qed
qed


lemma hasPath_primitive: "\<not> isObject v \<Longrightarrow> \<not> hasPath h v path"
proof (cases path)
  case Nil
  then show ?thesis by simp
next
  case (Cons k rest)
  assume "\<not> isObject v"
  then have "\<not> has_own h v k"
    by (cases v) (simp_all add: has_own.simps)
  then show ?thesis
    using Cons by (cases rest) simp_all
qed

lemma put_prop_frozen:
  "obj_at h a = Some ob \<Longrightarrow> frozen ob \<Longrightarrow> put_prop md (VRef a) k v h = refused md h"
  by (simp add: put_prop.simps)

lemma baseSet_loop_frozen:
  assumes "list_all (frozen_at h) (walk h (VRef a) path)" "path \<noteq> []"
    and "list_all (\<lambda>k. \<not> unsafe_key k) path"
  shows "\<exists>r g. baseSet_loop md (VRef a) path value h = (r, h @ g)
           \<and> (r = Inr () \<longleftrightarrow>
                md = Sloppy \<or> (hasPath h (VRef a) path \<and> baseGet_loop h (VRef a) path = value))"
  using assms
proof (induction path arbitrary: a h)
  case Nil
  then show ?case by simp
next
  case (Cons k rest)
  from Cons.prems(1) obtain ob where ob: "obj_at h a = Some ob" "frozen ob"
    by (auto dest: frozen_atD)
  define objValue where "objValue = get_prop h (VRef a) k"
  have safe: "\<not> unsafe_key k" "list_all (\<lambda>k. \<not> unsafe_key k) rest"
    using Cons.prems(3) by simp_all
  have np: "k \<noteq> ''__proto__''"
    using safe(1) by (rule safe_not_proto)
  show ?case
  proof (cases "rest = []")
    case True
    show ?thesis
    proof (cases "has_own h (VRef a) k \<and> objValue = value")
      case same: True
      then have "baseSet_loop md (VRef a) [k] value h = (Inr (), h)"
        using safe(1) by (simp add: assignValue_def objValue_def)
      then show ?thesis
        using same True by (auto simp: objValue_def)
    next
      case diff: False
      then have av: "assignValue md (VRef a) k value h = refused md h"
        using put_prop_frozen [OF ob] np
        by (auto simp: assignValue_def baseAssignValue_other objValue_def)
      have "baseSet_loop md (VRef a) [k] value h = (if md = Strict then Inl TypeError else Inr (), h)"
        using av safe(1) by (cases md) simp_all
      then show ?thesis
        using diff True by (cases md) (auto simp: objValue_def)
    qed
  next
    case False
    show ?thesis
    proof (cases "isObject objValue")
      case obj: True
      then obtain c where c: "objValue = VRef c"
        by (auto simp: isObject_iff)
      have own: "has_own h (VRef a) k"
        using c by (intro has_own_if_defined) (simp add: objValue_def [symmetric])
      have av: "assignValue md (VRef a) k (get_prop h (VRef a) k) h = (Inr (), h)"
        using own by (simp add: assignValue_def)
      have w: "walk h (VRef a) (k # rest) = a # walk h (VRef c) rest"
        using c by (simp add: objValue_def [symmetric])
      have "list_all (frozen_at h) (walk h (VRef c) rest)"
        using Cons.prems(1) unfolding w by simp
      from Cons.IH [OF this False safe(2)] obtain r g where
        IH: "baseSet_loop md (VRef c) rest value h = (r, h @ g)"
          "r = Inr () \<longleftrightarrow>
             md = Sloppy \<or> (hasPath h (VRef c) rest \<and> baseGet_loop h (VRef c) rest = value)"
        by blast
      have r1: "baseSet_loop md (VRef a) (k # rest) value h = (r, h @ g)"
        using baseSet_loop_step_object [OF False _ safe(1), of h a md "value"] obj av IH(1) c
        by (simp add: objValue_def [symmetric] del: baseSet_loop.simps)
      have hp: "hasPath h (VRef a) (k # rest) = hasPath h (VRef c) rest"
        using False own c by (cases rest) (simp_all add: objValue_def [symmetric])
      have bg: "baseGet_loop h (VRef a) (k # rest) = baseGet_loop h (VRef c) rest"
        using c by (simp add: objValue_def [symmetric])
      show ?thesis
        using r1 IH(2) unfolding hp bg by blast
    next
      case prim: False
      define new where "new = (if isIndex (hd rest) then empty_array else empty_object)"
      define h1 where "h1 = h @ [new]"
      have ob1: "obj_at h1 a = Some ob"
        using ob(1) by (simp add: h1_def obj_at_append_Some)
      have ah: "a < length h"
        using ob(1) by (rule obj_at_Some_less)
      have gp1: "get_prop h1 (VRef a) k = objValue"
        using ah by (simp add: h1_def get_prop_append objValue_def)
      have "objValue \<noteq> VRef (length h)"
        using prim by auto
      then have av: "assignValue md (VRef a) k (VRef (length h)) h1 = refused md h1"
        using put_prop_frozen [OF ob1 ob(2)] gp1 np
        by (simp add: assignValue_def baseAssignValue_other)
      have step: "baseSet_loop md (VRef a) (k # rest) value h =
          (case refused md h1 of
             (Inl e, h2) \<Rightarrow> (Inl e, h2)
           | (Inr u, h2) \<Rightarrow> baseSet_loop md (get_prop h2 (VRef a) k) rest value h2)"
        using baseSet_loop_step_fresh [OF False _ safe(1), of h a md "value"] prim av
        by (simp add: objValue_def [symmetric] new_def h1_def del: baseSet_loop.simps)
      have nhp: "\<not> hasPath h (VRef a) (k # rest)"
        using False hasPath_primitive [OF prim, of h rest]
        by (cases rest) (simp_all add: objValue_def [symmetric])
      show ?thesis
      proof (cases md)
        case Strict
        then have "baseSet_loop md (VRef a) (k # rest) value h = (Inl TypeError, h @ [new])"
          using step by (simp add: h1_def)
        then show ?thesis
          using nhp Strict by auto
      next
        case Sloppy
        from baseSet_loop_primitive [OF prim, of md rest "value" h1] obtain r g where
          "baseSet_loop md objValue rest value h1 = (r, h1 @ g)" "r = Inr ()"
          using Sloppy by auto
        then have "baseSet_loop md (VRef a) (k # rest) value h = (Inr (), h @ ([new] @ g))"
          using step Sloppy gp1 by (simp add: h1_def)
        then show ?thesis
          using Sloppy by blast
      qed
    qed
  qed
qed


lemma copyObject_frozen:
  assumes "obj_at h a = Some ob" "frozen ob"
  shows "\<exists>r. copyObject md src ks (VRef a) h = (r, h)
           \<and> (r = Inr () \<longleftrightarrow>
                list_all (\<lambda>k. (md = Sloppy \<and> k \<noteq> ''__proto__'')
                     \<or> (has_own h (VRef a) k \<and> get_prop h (VRef a) k = get_prop h src k)) ks)"
proof (induction ks)
  case Nil
  show ?case by simp
next
  case (Cons k ks)
  from Cons obtain r where
    IH: "copyObject md src ks (VRef a) h = (r, h)"
      "r = Inr () \<longleftrightarrow>
         list_all (\<lambda>k. (md = Sloppy \<and> k \<noteq> ''__proto__'')
              \<or> (has_own h (VRef a) k \<and> get_prop h (VRef a) k = get_prop h src k)) ks"
    by blast
  show ?case
  proof (cases "has_own h (VRef a) k \<and> get_prop h (VRef a) k = get_prop h src k")
    case True
    then have "assignValue md (VRef a) k (get_prop h src k) h = (Inr (), h)"
      by (simp add: assignValue_def)
    then show ?thesis
      using IH True by simp
  next
    case False
    then have av: "assignValue md (VRef a) k (get_prop h src k) h =
        refused (if k = ''__proto__'' then Strict else md) h"
      using put_prop_frozen [OF assms] by (auto simp: assignValue_def baseAssignValue_def)
    show ?thesis
    proof (cases "md = Sloppy \<and> k \<noteq> ''__proto__''")
      case True
      then have "copyObject md src (k # ks) (VRef a) h = (r, h)"
        using av IH(1) by simp
      then show ?thesis
        using IH(2) True by auto
    next
      case nt: False
      then have "(if k = ''__proto__'' then Strict else md) = Strict"
        by (cases md) auto
      then have "copyObject md src (k # ks) (VRef a) h = (Inl TypeError, h)"
        using av by simp
      then show ?thesis
        using False nt by auto
    qed
  qed
qed

lemma baseGet_loop_undefined: "nullish v \<Longrightarrow> ks \<noteq> [] \<Longrightarrow> baseGet_loop h v ks = VUndefined"
  by (cases ks) simp_all

lemma has_own_object: "has_own h v k \<Longrightarrow> isObject v"
  by (cases v) (simp_all add: has_own.simps)

lemma hasPath_snoc: "hasPath h v (ks @ [l]) \<longleftrightarrow> has_own h (baseGet_loop h v ks) l"
proof (induction ks arbitrary: v)
  case Nil
  show ?case
    using has_own_object [of h v l] by (auto dest: nullish_not_object)
next
  case (Cons k ks)
  show ?case
  proof (cases "nullish v")
    case True
    obtain x xs where "ks @ [l] = x # xs"
      by (cases "ks @ [l]") auto
    then have "\<not> hasPath h v ((k # ks) @ [l])"
      using True by simp
    moreover have "\<not> has_own h VUndefined l"
      by (simp add: has_own.simps)
    ultimately show ?thesis
      using True by simp
  next
    case False
    have hp: "hasPath h v ((k # ks) @ [l]) \<longleftrightarrow>
        has_own h v k \<and> hasPath h (get_prop h v k) (ks @ [l])"
      using False by (cases "ks @ [l]") simp_all
    have "has_own h v k" if "has_own h (baseGet_loop h (get_prop h v k) ks) l"
    proof (rule ccontr)
      assume "\<not> has_own h v k"
      then have u: "get_prop h v k = VUndefined"
        by (rule has_own_get_prop)
      have "baseGet_loop h VUndefined ks = VUndefined"
        by (cases ks) simp_all
      with that u show False
        by (simp add: has_own.simps)
    qed
    then show ?thesis
      using hp Cons.IH [of "get_prop h v k"] False by auto
  qed
qed

lemma baseGet_loop_on_walk:
  "baseGet_loop h (VRef a) ks = VRef p \<Longrightarrow> has_own h (VRef p) l \<Longrightarrow>
     p \<in> set (walk h (VRef a) (ks @ [l]))"
proof (induction ks arbitrary: a)
  case Nil
  then show ?case by simp
next
  case (Cons k ks)
  show ?case
  proof (cases "isObject (get_prop h (VRef a) k)")
    case True
    then obtain c where c: "get_prop h (VRef a) k = VRef c"
      by (auto simp: isObject_iff)
    then have "baseGet_loop h (VRef c) ks = VRef p"
      using Cons.prems(1) by simp
    from Cons.IH [OF this Cons.prems(2)] c show ?thesis
      by simp
  next
    case False
    have "baseGet_loop h (get_prop h (VRef a) k) ks = VRef p"
      using Cons.prems(1) by simp
    moreover have "\<not> has_own h (baseGet_loop h (get_prop h (VRef a) k) ks) l"
    proof (cases ks)
      case Nil
      then show ?thesis
        using False has_own_object [of h "get_prop h (VRef a) k" l] by auto
    next
      case (Cons k2 ks2)
      have "get_prop h (get_prop h (VRef a) k) k2 = VUndefined"
        using False by (cases "get_prop h (VRef a) k") (simp_all add: get_prop.simps)
      then have "baseGet_loop h (get_prop h (VRef a) k) ks = VUndefined"
        using Cons by (cases ks2) simp_all
      then show ?thesis
        by (simp add: has_own.simps)
    qed
    ultimately show ?thesis
      using Cons.prems(2) by simp
  qed
qed

lemma delete_prop_absent: "\<not> has_own h v l \<Longrightarrow> \<not> nullish v \<Longrightarrow> delete_prop md v l h = (Inr (), h)"
  by (cases v) (auto simp: delete_prop.simps has_own.simps nullish_def split: option.splits)

lemma delete_prop_frozen:
  "obj_at h p = Some ob \<Longrightarrow> frozen ob \<Longrightarrow> has_own h (VRef p) l \<Longrightarrow>
     delete_prop md (VRef p) l h = refused md h"
  by (simp add: delete_prop.simps has_own.simps)

lemma baseUnset_frozen:
  assumes "list_all (frozen_at h) (walk h (VRef a) (castPath h (VRef a) k))"
  shows "\<exists>r. baseUnset md (VRef a) k h = (r, h)
           \<and> (r = Inr () \<longleftrightarrow> md = Sloppy \<or> \<not> hasPath h (VRef a) (castPath h (VRef a) k))"
proof -
  define P where "P = castPath h (VRef a) k"
  have ne: "P \<noteq> []"
    by (simp add: P_def castPath_nonempty)
  define ks where "ks = butlast P"
  define l where "l = last P"
  have P: "P = ks @ [l]"
    using ne by (simp add: ks_def l_def)
  define parent where "parent = baseGet_loop h (VRef a) ks"
  have par: "(if length P < 2 then VRef a else baseGet_path h (VRef a) (butlast P)) = parent"
  proof (cases ks)
    case Nil
    then show ?thesis
      using P by (simp add: parent_def)
  next
    case (Cons k2 ks2)
    then show ?thesis
      using P by (simp add: parent_def baseGet_path_def ks_def [symmetric])
  qed
  have "baseUnset md (VRef a) k h =
      (let parent = (if length P < 2 then VRef a else baseGet_path h (VRef a) (butlast P))
       in if nullish parent then (Inr (), h)
          else delete_prop md parent (if P = [] then ''undefined'' else last P) h)"
    by (simp add: baseUnset_def P_def Let_def)
  then have un: "baseUnset md (VRef a) k h =
      (if nullish parent then (Inr (), h) else delete_prop md parent l h)"
    unfolding par using ne by (simp add: l_def)
  have hp: "hasPath h (VRef a) P \<longleftrightarrow> has_own h parent l"
    unfolding P parent_def by (rule hasPath_snoc)
  show ?thesis
  proof (cases "has_own h parent l")
    case False
    then have "baseUnset md (VRef a) k h = (Inr (), h)"
      using un delete_prop_absent [OF False] by auto
    then show ?thesis
      using False hp by (simp add: P_def)
  next
    case True
    then obtain p where p: "parent = VRef p"
      using has_own_object [OF True] by (auto simp: isObject_iff)
    have "p \<in> set (walk h (VRef a) P)"
      unfolding P using p True by (intro baseGet_loop_on_walk) (simp_all add: parent_def)
    then have "frozen_at h p"
      using assms by (auto simp: P_def list_all_iff)
    then obtain ob where ob: "obj_at h p = Some ob" "frozen ob"
      by (auto dest: frozen_atD)
    have "baseUnset md (VRef a) k h = refused md h"
      using un p delete_prop_frozen [OF ob] True by simp
    then show ?thesis
      using True hp by (cases md) (simp_all add: P_def)
  qed
qed


subsection \<open>What get returns depends on the properties only\<close>

lemma baseGet_loop_same_struct:
  "same_struct h h' \<Longrightarrow> baseGet_loop h' v p = baseGet_loop h v p"
  by (induction p arbitrary: v) (simp_all add: same_struct_reads)

lemma castPath_same_struct: "same_struct h h' \<Longrightarrow> castPath h' v k = castPath h v k"
  by (cases k) (simp_all add: isKey_def same_struct_reads)

lemma lodash_get_same_struct:
  "same_struct h h' \<Longrightarrow> lodash_get h' v k d = lodash_get h v k d"
  by (simp add: lodash_get_def baseGet_def baseGet_path_def baseGet_loop_same_struct
      castPath_same_struct)

lemma valid_get_prop: "closed h \<Longrightarrow> valid h (get_prop h v k)"
proof (cases v)
  case (VRef b)
  assume c: "closed h"
  show ?thesis
  proof (cases "obj_at h b")
    case None
    then show ?thesis by (simp add: VRef get_prop.simps valid_def)
  next
    case (Some ob)
    then have "ob \<in> set h"
      by (auto simp: obj_at_def split: if_splits)
    then have "\<forall>kv \<in> set (props ob). valid h (snd kv)"
      using c by (auto simp: closed_def list_all_iff)
    then show ?thesis
      using Some by (auto simp: VRef get_prop.simps valid_def split: option.splits dest!: map_of_SomeD)
  qed
qed (simp_all add: get_prop.simps valid_def)

lemma get_prop_append_valid: "valid h v \<Longrightarrow> get_prop (h @ g) v k = get_prop h v k"
proof (cases v)
  case (VRef b)
  assume "valid h v"
  then have "b < length h" by (simp add: VRef valid_def)
  then show ?thesis unfolding VRef by (rule get_prop_append)
qed (simp_all add: get_prop.simps)

lemma has_own_append_valid: "valid h v \<Longrightarrow> has_own (h @ g) v k = has_own h v k"
proof (cases v)
  case (VRef b)
  assume "valid h v"
  then have "b < length h" by (simp add: VRef valid_def)
  then show ?thesis unfolding VRef by (rule has_own_append)
qed (simp_all add: has_own.simps)

lemma baseGet_loop_append:
  "closed h \<Longrightarrow> valid h v \<Longrightarrow> baseGet_loop (h @ g) v p = baseGet_loop h v p"
proof (induction p arbitrary: v)
  case Nil
  show ?case by simp
next
  case (Cons k p)
  have "baseGet_loop (h @ g) (get_prop h v k) p = baseGet_loop h (get_prop h v k) p"
    using Cons.prems(1) valid_get_prop [OF Cons.prems(1)] by (rule Cons.IH)
  then show ?case
    using Cons.prems(2) by (simp add: get_prop_append_valid)
qed

lemma valid_baseGet_loop: "closed h \<Longrightarrow> valid h v \<Longrightarrow> valid h (baseGet_loop h v p)"
proof (induction p arbitrary: v)
  case Nil
  then show ?case by simp
next
  case (Cons k p)
  have "valid h (baseGet_loop h (get_prop h v k) p)"
    using Cons.prems(1) valid_get_prop [OF Cons.prems(1)] by (rule Cons.IH)
  then show ?case
    by (simp add: valid_def)
qed

lemma castPath_append_valid: "valid h v \<Longrightarrow> castPath (h @ g) v k = castPath h v k"
  by (cases k) (simp_all add: isKey_def has_own_append_valid)

lemma lodash_get_append:
  "closed h \<Longrightarrow> valid h v \<Longrightarrow> lodash_get (h @ g) v k d = lodash_get h v k d"
  by (simp add: lodash_get_def baseGet_def baseGet_path_def baseGet_loop_append
      castPath_append_valid)

lemma walk_append_valid:
  "list_all (\<lambda>x. x < length h) (walk h v p) \<Longrightarrow> walk (h @ g) v p = walk h v p"
proof (induction p arbitrary: v)
  case Nil
  show ?case by simp
next
  case (Cons k rest)
  show ?case
  proof (cases v)
    case (VRef a)
    have "a < length h"
      using Cons.prems VRef by simp
    then have gp: "get_prop (h @ g) (VRef a) k = get_prop h (VRef a) k"
      by (rule get_prop_append)
    have "walk (h @ g) (get_prop h (VRef a) k) rest = walk h (get_prop h (VRef a) k) rest"
      if "isObject (get_prop h (VRef a) k)"
      using Cons.prems VRef that by (intro Cons.IH) simp
    then show ?thesis
      using VRef gp by simp
  qed simp_all
qed

lemma frozen_at_append: "frozen_at h x \<Longrightarrow> frozen_at (h @ g) x"
  by (auto simp: frozen_at_def obj_at_def nth_append split: if_splits)

lemma frozen_at_less: "frozen_at h x \<Longrightarrow> x < length h"
  by (auto simp: frozen_at_def obj_at_def split: if_splits)


subsection \<open>Writes to a guarded Bag\<close>

lemma Bag_set_frozen:
  assumes "attributes s1 = VRef a" "closed (heap s1)"
    and "list_all (frozen_at (heap s1)) (walk (heap s1) (VRef a) (castPath (heap s1) (VRef a) k))"
    and "key_ok k"
  shows "\<exists>r G. Bag_set md k v s1 = (r, s1\<lparr>heap := heap s1 @ G\<rparr>)
           \<and> (r = Inr () \<longleftrightarrow>
                md = Sloppy
                \<or> (AttributeModel s1 = None
                   \<and> hasPath (heap s1) (VRef a) (castPath (heap s1) (VRef a) k)
                   \<and> baseGet_loop (heap s1) (VRef a) (castPath (heap s1) (VRef a) k) = v))"
proof -
  define h where "h = heap s1"
  define P where "P = castPath h (VRef a) k"
  have ne: "P \<noteq> []"
    by (simp add: P_def castPath_nonempty)
  have safe: "list_all (\<lambda>seg. \<not> unsafe_key seg) P"
    unfolding P_def using assms(4) by (rule key_ok_safe)
  have fr: "list_all (frozen_at h) (walk h (VRef a) P)"
    using assms(3) by (simp add: h_def P_def)
  have "a \<in> set (walk h (VRef a) P)"
    using ne by (cases P) simp_all
  then have ah: "a < length h"
    using fr by (auto simp: list_all_iff dest: frozen_at_less)
  show ?thesis
  proof (cases "AttributeModel s1")
    case None
    from baseSet_loop_frozen [OF fr ne safe, of md v] obtain r g where
      L: "baseSet_loop md (VRef a) P v h = (r, h @ g)"
        "r = Inr () \<longleftrightarrow> md = Sloppy \<or> (hasPath h (VRef a) P \<and> baseGet_loop h (VRef a) P = v)"
      by blast
    have "Bag_set md k v s1 = (r, s1\<lparr>heap := h @ g\<rparr>)"
      using None L(1) assms(1)
      by (simp add: Bag_set_def convertToModel_def lodash_set_def baseSet_def P_def h_def)
    moreover have "r = Inr () \<longleftrightarrow>
        md = Sloppy \<or> (AttributeModel s1 = None \<and> hasPath h (VRef a) P \<and> baseGet_loop h (VRef a) P = v)"
      using None L(2) by simp
    ultimately show ?thesis
      unfolding P_def h_def by (intro exI conjI)
  next
    case (Some m)
    define inst where "inst = \<lparr>kind = ClassInstance, frozen = False, props = m v\<rparr>"
    define h1 where "h1 = h @ [inst]"
    define w where "w = VRef (length h)"
    have cp: "castPath h1 (VRef a) k = P"
      using ah by (simp add: h1_def P_def castPath_append)
    have "list_all (\<lambda>x. x < length h) (walk h (VRef a) P)"
      using fr by (auto simp: list_all_iff dest: frozen_at_less)
    then have wk: "walk h1 (VRef a) P = walk h (VRef a) P"
      unfolding h1_def by (rule walk_append_valid)
    have "list_all (frozen_at h1) (walk h (VRef a) P)"
      using fr unfolding h1_def list_all_iff by (blast intro: frozen_at_append)
    then have fr1: "list_all (frozen_at h1) (walk h1 (VRef a) P)"
      unfolding wk .
    from baseSet_loop_frozen [OF fr1 ne safe, of md w] obtain r g where
      L: "baseSet_loop md (VRef a) P w h1 = (r, h1 @ g)"
        "r = Inr () \<longleftrightarrow> md = Sloppy \<or> (hasPath h1 (VRef a) P \<and> baseGet_loop h1 (VRef a) P = w)"
      by blast
    have va: "valid h (VRef a)"
      using ah by (simp add: valid_def)
    have cl: "closed h"
      using assms(2) by (simp add: h_def)
    have "baseGet_loop h1 (VRef a) P = baseGet_loop h (VRef a) P"
      unfolding h1_def using cl va by (rule baseGet_loop_append)
    moreover have "valid h (baseGet_loop h (VRef a) P)"
      using cl va by (rule valid_baseGet_loop)
    ultimately have "baseGet_loop h1 (VRef a) P \<noteq> w"
      by (auto simp: w_def valid_def)
    then have r: "r = Inr () \<longleftrightarrow> md = Sloppy"
      using L(2) by simp
    have "Bag_set md k v s1 = (r, s1\<lparr>heap := h @ ([inst] @ g)\<rparr>)"
      using Some L(1) assms(1) cp
      by (simp add: Bag_set_def convertToModel_def alloc_def lodash_set_def baseSet_def
          h_def [symmetric] inst_def [symmetric] h1_def [symmetric] w_def [symmetric])
    moreover have "r = Inr () \<longleftrightarrow>
        md = Sloppy \<or> (AttributeModel s1 = None \<and> hasPath h (VRef a) P \<and> baseGet_loop h (VRef a) P = v)"
      using Some r by simp
    ultimately show ?thesis
      unfolding P_def h_def by (intro exI conjI)
  qed
qed


section \<open>Writes to a guarded Bag\<close>

text \<open>
  Claim C1 says that on a guarded container every direct \<open>set\<close>, \<open>put\<close>, \<open>forget\<close> or
  \<open>reset\<close> raises and that \<open>get\<close> keeps returning the earlier values. On the guarded Bag
  made from \<open>{a: {b: 1}, list: [1]}\<close> the call \<open>set('list.0', 99)\<close> returns normally, also
  when lodash is strict, because \<open>freeze\<close> leaves arrays alone; \<open>get('list.0')\<close> then
  returns 99 instead of 1. \<open>forget\<close> of a missing key returns normally as well.
\<close>

theorem guarded_set_into_array_counterexample:
  "Bag_constructor 2 Strict (VRef 2) True None ex1_heap = Some (Inr (), ex1_guarded)
   \<and> Bag_isGuarded ex1_guarded = VBool True
   \<and> Bag_get (Some ''list.0'') VUndefined ex1_guarded = VNum 1
   \<and> fst (Bag_set Strict (Some ''list.0'') (VNum 99) ex1_guarded) = Inr ()
   \<and> Bag_get (Some ''list.0'') VUndefined
        (snd (Bag_set Strict (Some ''list.0'') (VNum 99) ex1_guarded)) = VNum 99
   \<and> fst (Bag_forget Strict (Some ''missing'') ex1_guarded) = Inr ()"
  by (simp add: model_eval ex1_heap_def ex1_guarded_def numeral_2_eq_2)


lemma guarded_state_refuses_writes:
  assumes "GuardedState s1 = Some True"
    and "deep_frozen n (heap s1) (attributes s1)"
    and "closed (heap s1)"
    and "key_ok k"
    and "list_all (plain_at (heap s1))
           (walk (heap s1) (attributes s1) (castPath (heap s1) (attributes s1) k))"
    and "isPlainObject (heap s1) m"
  shows "Bag_isGuarded s1 = VBool True
       \<and> (\<exists>G. snd (Bag_set md k v s1) = s1\<lparr>heap := heap s1 @ G\<rparr>)
       \<and> (\<forall>k' d. Bag_get k' d (snd (Bag_set md k v s1)) = Bag_get k' d s1)
       \<and> fst (Bag_set Sloppy k v s1) = Inr ()
       \<and> fst (Bag_set Strict k v s1) =
            (if AttributeModel s1 = None \<and> Bag_has k s1
                \<and> baseGet (heap s1) (attributes s1) k = v
             then Inr () else Inl TypeError)
       \<and> snd (Bag_forget md k s1) = s1
       \<and> fst (Bag_forget Sloppy k s1) = Inr ()
       \<and> fst (Bag_forget Strict k s1) = (if Bag_has k s1 then Inl TypeError else Inr ())
       \<and> snd (Bag_put md m s1) = s1
       \<and> fst (Bag_put md m s1) =
            (if list_all (\<lambda>k. (md = Sloppy \<and> k \<noteq> ''__proto__'')
                           \<or> (has_own (heap s1) (attributes s1) k
                              \<and> get_prop (heap s1) (attributes s1) k = get_prop (heap s1) m k))
                  (keysIn (heap s1) m)
             then Inr () else Inl TypeError)"
proof -
  define h where "h = heap s1"
  have dp: "deep_frozen n h (attributes s1)"
    using assms(2) by (simp add: h_def)
  obtain a where a: "attributes s1 = VRef a" and fa: "frozen_at h a"
    using dp by (cases n) (auto split: sum.splits)
  define P where "P = castPath h (VRef a) k"
  have ne: "P \<noteq> []"
    by (simp add: P_def castPath_nonempty)
  have pl: "list_all (plain_at h) (walk h (VRef a) P)"
    using assms(5) by (simp add: h_def [symmetric] a P_def)
  have fr: "list_all (frozen_at h) (walk h (VRef a) P)"
    using dp pl unfolding a by (rule walk_frozen)
  obtain ob where ob: "obj_at h a = Some ob" "frozen ob"
    using fa by (auto dest: frozen_atD)
  have ah: "a < length h"
    using ob(1) by (rule obj_at_Some_less)
  have va: "valid h (VRef a)"
    using ah by (simp add: valid_def)
  have cl: "closed h"
    using assms(3) by (simp add: h_def)
  have s1a: "attributes s1 = VRef a" "heap s1 = h"
    by (simp_all add: a h_def)
  have c1: "Bag_isGuarded s1 = VBool True"
    using assms(1) by (simp add: Bag_isGuarded_def)
  from Bag_set_frozen [of s1 a k, unfolded s1a, OF refl cl fr [unfolded P_def] assms(4)]
  have set: "\<exists>r G. Bag_set md k v s1 = (r, s1\<lparr>heap := h @ G\<rparr>)
           \<and> (r = Inr () \<longleftrightarrow>
                md = Sloppy
                \<or> (AttributeModel s1 = None \<and> hasPath h (VRef a) P
                   \<and> baseGet_loop h (VRef a) P = v))" for md
    unfolding P_def by simp
  have hasP: "Bag_has k s1 \<longleftrightarrow> hasPath h (VRef a) P"
    by (simp add: Bag_has_def lodash_has_def s1a P_def)
  have getP: "baseGet (heap s1) (attributes s1) k = baseGet_loop h (VRef a) P"
    using ne by (simp add: baseGet_def baseGet_path_def s1a P_def)
  obtain r G where rG: "Bag_set md k v s1 = (r, s1\<lparr>heap := h @ G\<rparr>)"
    using set [of md] by (elim exE conjE)
  have "snd (Bag_set md k v s1) = s1\<lparr>heap := heap s1 @ G\<rparr>"
    unfolding rG s1a by simp
  then have c3: "\<exists>G. snd (Bag_set md k v s1) = s1\<lparr>heap := heap s1 @ G\<rparr>"
    by (rule exI)
  have c4: "Bag_get k' d (snd (Bag_set md k v s1)) = Bag_get k' d s1" for k' d
    unfolding rG using lodash_get_append [OF cl va] by (simp add: Bag_get_def s1a)
  obtain r5 G5 where "Bag_set Sloppy k v s1 = (r5, s1\<lparr>heap := h @ G5\<rparr>)"
    "r5 = Inr () \<longleftrightarrow>
       Sloppy = Sloppy
       \<or> (AttributeModel s1 = None \<and> hasPath h (VRef a) P \<and> baseGet_loop h (VRef a) P = v)"
    using set [of Sloppy] by (elim exE conjE)
  then have c5: "fst (Bag_set Sloppy k v s1) = Inr ()"
    by simp
  obtain r' G' where rG': "Bag_set Strict k v s1 = (r', s1\<lparr>heap := h @ G'\<rparr>)"
    and r'0: "r' = Inr () \<longleftrightarrow>
      Strict = Sloppy
      \<or> (AttributeModel s1 = None \<and> hasPath h (VRef a) P \<and> baseGet_loop h (VRef a) P = v)"
    using set [of Strict] by (elim exE conjE)
  have r': "r' = Inr () \<longleftrightarrow>
      AttributeModel s1 = None \<and> hasPath h (VRef a) P \<and> baseGet_loop h (VRef a) P = v"
    using r'0 by simp
  have c6: "fst (Bag_set Strict k v s1) =
      (if AttributeModel s1 = None \<and> Bag_has k s1 \<and> baseGet (heap s1) (attributes s1) k = v
       then Inr () else Inl TypeError)"
  proof (cases r')
    case (Inl e)
    then have "\<not> (AttributeModel s1 = None \<and> hasPath h (VRef a) P
        \<and> baseGet_loop h (VRef a) P = v)"
      using r' by simp
    then show ?thesis
      unfolding rG' hasP getP using Inl by (cases e) simp
  next
    case (Inr u)
    then have "AttributeModel s1 = None \<and> hasPath h (VRef a) P
        \<and> baseGet_loop h (VRef a) P = v"
      using r' by simp
    then show ?thesis
      unfolding rG' hasP getP using Inr by simp
  qed
  from baseUnset_frozen [OF fr [unfolded P_def]]
  have un: "\<exists>r. baseUnset md (VRef a) k h = (r, h)
      \<and> (r = Inr () \<longleftrightarrow> md = Sloppy \<or> \<not> hasPath h (VRef a) P)" for md
    unfolding P_def by simp
  have fg: "Bag_forget md k s1 = (fst (baseUnset md (VRef a) k h), s1\<lparr>heap := snd (baseUnset md (VRef a) k h)\<rparr>)"
    for md
    by (simp add: Bag_forget_def lodash_unset_def s1a split: prod.splits)
  have same: "s1\<lparr>heap := h\<rparr> = s1"
    by (simp add: h_def)
  have c7: "snd (Bag_forget md k s1) = s1"
  proof -
    obtain r where "baseUnset md (VRef a) k h = (r, h)"
      using un [of md] by (elim exE conjE)
    then show ?thesis
      unfolding fg by (simp add: same)
  qed
  have c8: "fst (Bag_forget Sloppy k s1) = Inr ()"
  proof -
    obtain r where "baseUnset Sloppy (VRef a) k h = (r, h)"
      "r = Inr () \<longleftrightarrow> Sloppy = Sloppy \<or> \<not> hasPath h (VRef a) P"
      using un [of Sloppy] by (elim exE conjE)
    then show ?thesis
      unfolding fg by simp
  qed
  have c9: "fst (Bag_forget Strict k s1) = (if Bag_has k s1 then Inl TypeError else Inr ())"
  proof -
    obtain r where r: "baseUnset Strict (VRef a) k h = (r, h)"
      and r0: "r = Inr () \<longleftrightarrow> Strict = Sloppy \<or> \<not> hasPath h (VRef a) P"
      using un [of Strict] by (elim exE conjE)
    show ?thesis
    proof (cases r)
      case (Inl e)
      then have "hasPath h (VRef a) P"
        using r0 by simp
      then show ?thesis
        unfolding fg r hasP using Inl by (cases e) simp
    next
      case (Inr u)
      then have "\<not> hasPath h (VRef a) P"
        using r0 by simp
      then show ?thesis
        unfolding fg r hasP using Inr by simp
    qed
  qed
  from copyObject_frozen [OF ob]
  have co: "\<exists>r. copyObject md m (keysIn h m) (VRef a) h = (r, h)
      \<and> (r = Inr () \<longleftrightarrow>
           list_all (\<lambda>k. (md = Sloppy \<and> k \<noteq> ''__proto__'')
                \<or> (has_own h (VRef a) k \<and> get_prop h (VRef a) k = get_prop h m k))
             (keysIn h m))"
    by simp
  have pt: "Bag_put md m s1 = (fst (copyObject md m (keysIn h m) (VRef a) h),
      s1\<lparr>heap := snd (copyObject md m (keysIn h m) (VRef a) h)\<rparr>)"
    by (simp add: Bag_put_def lodash_extend_def s1a split: prod.splits)
  obtain rp where rp: "copyObject md m (keysIn h m) (VRef a) h = (rp, h)"
    and rp0: "rp = Inr () \<longleftrightarrow>
         list_all (\<lambda>k. (md = Sloppy \<and> k \<noteq> ''__proto__'')
              \<or> (has_own h (VRef a) k \<and> get_prop h (VRef a) k = get_prop h m k))
           (keysIn h m)"
    using co by (elim exE conjE)
  have c10: "snd (Bag_put md m s1) = s1"
    unfolding pt rp by (simp add: same)
  have c11: "fst (Bag_put md m s1) =
      (if list_all (\<lambda>k. (md = Sloppy \<and> k \<noteq> ''__proto__'')
                      \<or> (has_own (heap s1) (attributes s1) k
                         \<and> get_prop (heap s1) (attributes s1) k = get_prop (heap s1) m k))
            (keysIn (heap s1) m)
       then Inr () else Inl TypeError)"
  proof (cases rp)
    case (Inl e)
    then have "\<not> list_all (\<lambda>k. (md = Sloppy \<and> k \<noteq> ''__proto__'')
              \<or> (has_own h (VRef a) k \<and> get_prop h (VRef a) k = get_prop h m k))
           (keysIn h m)"
      using rp0 by simp
    then show ?thesis
      unfolding pt rp s1a using Inl by (cases e) simp
  next
    case (Inr u)
    then have "list_all (\<lambda>k. (md = Sloppy \<and> k \<noteq> ''__proto__'')
              \<or> (has_own h (VRef a) k \<and> get_prop h (VRef a) k = get_prop h m k))
           (keysIn h m)"
      using rp0 by simp
    then show ?thesis
      unfolding pt rp s1a using Inr by simp
  qed
  from c1 c3 c4 c5 c6 c7 c8 c9 c10 c11 show ?thesis
    by (intro conjI allI)
qed

lemma Bag_guard_establishes:
  assumes "Bag_guard n0 s0 = Some (Inr (), s')"
  shows "GuardedState s' = Some True \<and> deep_frozen n0 (heap s') (attributes s')
       \<and> (\<forall>k' d. Bag_get k' d s' = Bag_get k' d s0)"
proof -
  obtain r0 h0 where fz: "freeze n0 (attributes s0) (heap s0) = Some (Inr r0, h0)"
    and s': "s' = s0\<lparr>heap := h0, GuardedState := Some True\<rparr>"
    using assms
    by (auto simp: Bag_guard_def split: option.splits sum.splits prod.splits)
  have st: "same_struct (heap s0) h0"
    using freeze_struct [OF fz] by simp
  have "deep_frozen n0 h0 (attributes s0)"
    using fz by (rule freeze_deep)
  then show ?thesis
    using lodash_get_same_struct [OF st] by (simp add: s' Bag_get_def)
qed


text \<open>
  Claim C1, amended. \<open>guard()\<close>, when it returns, leaves the flag true and every plain
  mapping of the attributes frozen, and \<open>get\<close> returns what it returned before. Let a
  container be in such a state (flag true, attributes frozen through all their plain
  mappings, heap without dangling references), let \<open>k\<close> be a key of the fragment
  (\<open>key_ok\<close>) whose path runs through plain mappings only, and let \<open>m\<close> be a plain
  mapping. A \<open>set\<close> on \<open>k\<close> changes no existing object, and \<open>get\<close> returns the same
  values after it; it returns normally when lodash is sloppy, and when lodash is strict
  it raises TypeError unless no model is configured and \<open>k\<close> already holds exactly that
  value. \<open>forget(k)\<close> and \<open>put(m)\<close> leave the whole state as it is; a strict
  \<open>forget(k)\<close> raises exactly when \<open>k\<close> is present and a sloppy one never; \<open>put(m)\<close>
  raises exactly when a key of \<open>m\<close> is not already present with the same value and
  either lodash is strict or that key is \<open>__proto__\<close>. Nothing is said about \<open>reset\<close>.
\<close>

theorem guarded_writes_refused:
  "(Bag_guard n0 s0 = Some (Inr (), s') \<longrightarrow>
      GuardedState s' = Some True \<and> deep_frozen n0 (heap s') (attributes s')
      \<and> (\<forall>k' d. Bag_get k' d s' = Bag_get k' d s0))
   \<and> (GuardedState s1 = Some True
      \<and> deep_frozen n (heap s1) (attributes s1)
      \<and> closed (heap s1)
      \<and> key_ok k
      \<and> list_all (plain_at (heap s1))
           (walk (heap s1) (attributes s1) (castPath (heap s1) (attributes s1) k))
      \<and> isPlainObject (heap s1) m
    \<longrightarrow>
       Bag_isGuarded s1 = VBool True
       \<and> (\<exists>G. snd (Bag_set md k v s1) = s1\<lparr>heap := heap s1 @ G\<rparr>)
       \<and> (\<forall>k' d. Bag_get k' d (snd (Bag_set md k v s1)) = Bag_get k' d s1)
       \<and> fst (Bag_set Sloppy k v s1) = Inr ()
       \<and> fst (Bag_set Strict k v s1) =
            (if AttributeModel s1 = None \<and> Bag_has k s1
                \<and> baseGet (heap s1) (attributes s1) k = v
             then Inr () else Inl TypeError)
       \<and> snd (Bag_forget md k s1) = s1
       \<and> fst (Bag_forget Sloppy k s1) = Inr ()
       \<and> fst (Bag_forget Strict k s1) = (if Bag_has k s1 then Inl TypeError else Inr ())
       \<and> snd (Bag_put md m s1) = s1
       \<and> fst (Bag_put md m s1) =
            (if list_all (\<lambda>k. (md = Sloppy \<and> k \<noteq> ''__proto__'')
                           \<or> (has_own (heap s1) (attributes s1) k
                              \<and> get_prop (heap s1) (attributes s1) k = get_prop (heap s1) m k))
                  (keysIn (heap s1) m)
             then Inr () else Inl TypeError))"
proof (rule conjI; rule impI)
  assume "Bag_guard n0 s0 = Some (Inr (), s')"
  then show "GuardedState s' = Some True \<and> deep_frozen n0 (heap s') (attributes s')
      \<and> (\<forall>k' d. Bag_get k' d s' = Bag_get k' d s0)"
    by (rule Bag_guard_establishes)
next
  assume a: "GuardedState s1 = Some True
      \<and> deep_frozen n (heap s1) (attributes s1)
      \<and> closed (heap s1)
      \<and> key_ok k
      \<and> list_all (plain_at (heap s1))
           (walk (heap s1) (attributes s1) (castPath (heap s1) (attributes s1) k))
      \<and> isPlainObject (heap s1) m"
  have a1: "GuardedState s1 = Some True"
    and a2: "deep_frozen n (heap s1) (attributes s1)"
    and a3: "closed (heap s1)"
    and a4: "key_ok k"
    and a5: "list_all (plain_at (heap s1))
           (walk (heap s1) (attributes s1) (castPath (heap s1) (attributes s1) k))"
    and a6: "isPlainObject (heap s1) m"
    using a by blast+
  show "Bag_isGuarded s1 = VBool True
       \<and> (\<exists>G. snd (Bag_set md k v s1) = s1\<lparr>heap := heap s1 @ G\<rparr>)
       \<and> (\<forall>k' d. Bag_get k' d (snd (Bag_set md k v s1)) = Bag_get k' d s1)
       \<and> fst (Bag_set Sloppy k v s1) = Inr ()
       \<and> fst (Bag_set Strict k v s1) =
            (if AttributeModel s1 = None \<and> Bag_has k s1
                \<and> baseGet (heap s1) (attributes s1) k = v
             then Inr () else Inl TypeError)
       \<and> snd (Bag_forget md k s1) = s1
       \<and> fst (Bag_forget Sloppy k s1) = Inr ()
       \<and> fst (Bag_forget Strict k s1) = (if Bag_has k s1 then Inl TypeError else Inr ())
       \<and> snd (Bag_put md m s1) = s1
       \<and> fst (Bag_put md m s1) =
            (if list_all (\<lambda>k. (md = Sloppy \<and> k \<noteq> ''__proto__'')
                           \<or> (has_own (heap s1) (attributes s1) k
                              \<and> get_prop (heap s1) (attributes s1) k = get_prop (heap s1) m k))
                  (keysIn (heap s1) m)
             then Inr () else Inl TypeError)"
    using a1 a2 a3 a4 a5 a6 by (rule guarded_state_refuses_writes)
qed


theorem guarded_writes_refused_witness:
  "Bag_guard 2 ex1_bag = Some (Inr (), ex1_guarded)
   \<and> GuardedState ex1_guarded = Some True
   \<and> deep_frozen 2 (heap ex1_guarded) (attributes ex1_guarded)
   \<and> closed (heap ex1_guarded)
   \<and> key_ok (Some ''a.b'')
   \<and> list_all (plain_at (heap ex1_guarded))
         (walk (heap ex1_guarded) (attributes ex1_guarded)
            (castPath (heap ex1_guarded) (attributes ex1_guarded) (Some ''a.b'')))
   \<and> isPlainObject (heap ex1_guarded) (VRef 1)
   \<and> Bag_isGuarded ex1_guarded = VBool True
   \<and> (\<forall>k' d. Bag_get k' d ex1_guarded = Bag_get k' d ex1_bag)
   \<and> fst (Bag_set Strict (Some ''a.b'') (VNum 99) ex1_guarded) = Inl TypeError
   \<and> fst (Bag_set Sloppy (Some ''a.b'') (VNum 99) ex1_guarded) = Inr ()
   \<and> Bag_get (Some ''a.b'') VUndefined (snd (Bag_set Strict (Some ''a.b'') (VNum 99) ex1_guarded))
        = VNum 1
   \<and> fst (Bag_forget Strict (Some ''a.b'') ex1_guarded) = Inl TypeError
   \<and> fst (Bag_put Strict (VRef 1) ex1_guarded) = Inl TypeError
   \<and> fst (Bag_put Sloppy (VRef 1) ex1_guarded) = Inr ()"
proof -
  have g: "Bag_guard 2 ex1_bag = Some (Inr (), ex1_guarded)"
    by (simp add: model_eval ex1_heap_def ex1_bag_def ex1_guarded_def numeral_2_eq_2)
  have a: "GuardedState ex1_guarded = Some True"
    by (simp add: ex1_guarded_def)
  have f: "deep_frozen 2 (heap ex1_guarded) (attributes ex1_guarded)"
    by (simp add: ex1_guarded_def numeral_2_eq_2 ownKeys.simps get_prop.simps
        isPlainObject.simps frozen_at_def obj_at_def)
  have b: "closed (heap ex1_guarded)"
    by (simp add: closed_def valid_def ex1_guarded_def)
  have k: "key_ok (Some ''a.b'')"
    by (simp add: key_ok_def bracket_free_def name_ok_def reserved_names_def)
  have c: "list_all (plain_at (heap ex1_guarded))
         (walk (heap ex1_guarded) (attributes ex1_guarded)
            (castPath (heap ex1_guarded) (attributes ex1_guarded) (Some ''a.b'')))"
    by (simp add: plain_at_def ex1_guarded_def isKey_def has_own.simps get_prop.simps
        isPlainObject.simps obj_at_def)
  have p: "isPlainObject (heap ex1_guarded) (VRef 1)"
    by (simp add: ex1_guarded_def isPlainObject.simps obj_at_def)
  have d: "Bag_has (Some ''a.b'') ex1_guarded"
    "baseGet (heap ex1_guarded) (attributes ex1_guarded) (Some ''a.b'') = VNum 1"
    "AttributeModel ex1_guarded = None"
    "Bag_get (Some ''a.b'') VUndefined ex1_guarded = VNum 1"
    "\<not> list_all (\<lambda>k. has_own (heap ex1_guarded) (attributes ex1_guarded) k
                       \<and> get_prop (heap ex1_guarded) (attributes ex1_guarded) k
                           = get_prop (heap ex1_guarded) (VRef 1) k)
            (keysIn (heap ex1_guarded) (VRef 1))"
    "''__proto__'' \<notin> set (keysIn (heap ex1_guarded) (VRef 1))"
    by (simp_all add: model_eval ex1_guarded_def)
  have hyp: "GuardedState ex1_guarded = Some True
      \<and> deep_frozen 2 (heap ex1_guarded) (attributes ex1_guarded)
      \<and> closed (heap ex1_guarded)
      \<and> key_ok (Some ''a.b'')
      \<and> list_all (plain_at (heap ex1_guarded))
           (walk (heap ex1_guarded) (attributes ex1_guarded)
              (castPath (heap ex1_guarded) (attributes ex1_guarded) (Some ''a.b'')))
      \<and> isPlainObject (heap ex1_guarded) (VRef 1)"
    using a f b k c p by (intro conjI)
  note T = guarded_writes_refused [of 2 ex1_bag ex1_guarded ex1_guarded 2 "Some ''a.b''"
      "VRef 1" _ "VNum 99"]
  note T1 = T [THEN conjunct1, THEN mp, OF g]
  have T2: "Bag_isGuarded ex1_guarded = VBool True
       \<and> (\<exists>G. snd (Bag_set md (Some ''a.b'') (VNum 99) ex1_guarded)
                = ex1_guarded\<lparr>heap := heap ex1_guarded @ G\<rparr>)
       \<and> (\<forall>k' d. Bag_get k' d (snd (Bag_set md (Some ''a.b'') (VNum 99) ex1_guarded))
                = Bag_get k' d ex1_guarded)
       \<and> fst (Bag_set Sloppy (Some ''a.b'') (VNum 99) ex1_guarded) = Inr ()
       \<and> fst (Bag_set Strict (Some ''a.b'') (VNum 99) ex1_guarded) =
            (if AttributeModel ex1_guarded = None \<and> Bag_has (Some ''a.b'') ex1_guarded
                \<and> baseGet (heap ex1_guarded) (attributes ex1_guarded) (Some ''a.b'') = VNum 99
             then Inr () else Inl TypeError)
       \<and> snd (Bag_forget md (Some ''a.b'') ex1_guarded) = ex1_guarded
       \<and> fst (Bag_forget Sloppy (Some ''a.b'') ex1_guarded) = Inr ()
       \<and> fst (Bag_forget Strict (Some ''a.b'') ex1_guarded)
            = (if Bag_has (Some ''a.b'') ex1_guarded then Inl TypeError else Inr ())
       \<and> snd (Bag_put md (VRef 1) ex1_guarded) = ex1_guarded
       \<and> fst (Bag_put md (VRef 1) ex1_guarded) =
            (if list_all (\<lambda>k. (md = Sloppy \<and> k \<noteq> ''__proto__'')
                           \<or> (has_own (heap ex1_guarded) (attributes ex1_guarded) k
                              \<and> get_prop (heap ex1_guarded) (attributes ex1_guarded) k
                                  = get_prop (heap ex1_guarded) (VRef 1) k))
                  (keysIn (heap ex1_guarded) (VRef 1))
             then Inr () else Inl TypeError)" for md
    using T [of md, THEN conjunct2, THEN mp, OF hyp] .
  have t: "Bag_isGuarded ex1_guarded = VBool True
   \<and> (\<forall>k' d. Bag_get k' d ex1_guarded = Bag_get k' d ex1_bag)
   \<and> fst (Bag_set Strict (Some ''a.b'') (VNum 99) ex1_guarded) = Inl TypeError
   \<and> fst (Bag_set Sloppy (Some ''a.b'') (VNum 99) ex1_guarded) = Inr ()
   \<and> Bag_get (Some ''a.b'') VUndefined (snd (Bag_set Strict (Some ''a.b'') (VNum 99) ex1_guarded))
        = VNum 1
   \<and> fst (Bag_forget Strict (Some ''a.b'') ex1_guarded) = Inl TypeError"
    using T1 T2 [of Strict] d(1-4)
    by simp
  have u: "fst (Bag_put Strict (VRef 1) ex1_guarded) = Inl TypeError"
    using T2 [of Strict] d(5)
    by simp
  have w: "fst (Bag_put Sloppy (VRef 1) ex1_guarded) = Inr ()"
    using T2 [of Sloppy] d(6)
    by (auto simp: list_all_iff)
  from g a f b k c p t u w show ?thesis
    by (intro conjI) simp_all
qed


section \<open>put, set and reset\<close>

subsection \<open>set and reset with keys that are one property name\<close>







section \<open>mutate\<close>

subsection \<open>lodash set keeps the kinds of the objects\<close>

lemma put_prop_kinds:
  "put_prop md v k x h = (r, h') \<Longrightarrow>
     length h' = length h \<and> (\<forall>y < length h. kind (h' ! y) = kind (h ! y))"
proof (cases v)
  case (VRef a)
  assume p: "put_prop md v k x h = (r, h')"
  show ?thesis
  proof (cases "obj_at h a")
    case None
    then show ?thesis using p VRef by (auto simp: put_prop.simps)
  next
    case (Some ob)
    then have "h ! a = ob" "a < length h"
      by (auto simp: obj_at_def split: if_splits)
    then show ?thesis
      using p VRef Some
      by (cases md; cases "frozen ob") (auto simp: put_prop.simps nth_list_update)
  qed
qed (cases md; auto simp: put_prop.simps)+

lemma assignValue_kinds:
  "assignValue md v k x h = (r, h') \<Longrightarrow>
     length h' = length h \<and> (\<forall>y < length h. kind (h' ! y) = kind (h ! y))"
  using put_prop_kinds [of "if k = ''__proto__'' then Strict else md" v k x h r h']
  by (auto simp: assignValue_def baseAssignValue_def Let_def split: if_splits)

lemma baseSet_loop_kinds:
  "baseSet_loop md v P w h = (r, h') \<Longrightarrow>
     length h \<le> length h' \<and> (\<forall>y < length h. kind (h' ! y) = kind (h ! y))"
proof (induction P arbitrary: v h)
  case Nil
  then show ?case by simp
next
  case (Cons k rest)
  show ?case
  proof (cases "nullish v")
    case True
    then show ?thesis using Cons.prems by simp
  next
    case nn: False
    show ?thesis
    proof (cases "unsafe_key k")
    case True
    then show ?thesis using Cons.prems nn by simp
    next
    case False
    define nh where "nh = (if rest = [] then (w, h)
        else if isObject (get_prop h v k) then (get_prop h v k, h)
        else alloc (if isIndex (hd rest) then empty_array else empty_object) h)"
    obtain nv h1 where nh1: "nh = (nv, h1)"
      by (cases nh)
    have e1: "length h \<le> length h1 \<and> (\<forall>y < length h. kind (h1 ! y) = kind (h ! y))"
      using nh1 by (auto simp: nh_def alloc_def nth_append split: if_splits)
    obtain r2 h2 where av: "assignValue md v k nv h1 = (r2, h2)"
      by (cases "assignValue md v k nv h1")
    have e2: "length h2 = length h1 \<and> (\<forall>y < length h1. kind (h2 ! y) = kind (h1 ! y))"
      using av by (rule assignValue_kinds)
    have step: "baseSet_loop md v (k # rest) w h =
        (case r2 of Inl e \<Rightarrow> (Inl e, h2)
         | Inr u \<Rightarrow> baseSet_loop md (get_prop h2 v k) rest w h2)"
    proof -
      have "baseSet_loop md v (k # rest) w h =
          (case nh of (newValue, h1) \<Rightarrow>
             case assignValue md v k newValue h1 of
               (Inl e, h2) \<Rightarrow> (Inl e, h2)
             | (Inr u, h2) \<Rightarrow> baseSet_loop md (get_prop h2 v k) rest w h2)"
        using False nn by (simp add: nh_def)
      then show ?thesis
        by (simp add: nh1 av split: sum.splits)
    qed
    show ?thesis
    proof (cases r2)
      case (Inl e)
      then have "h' = h2"
        using step Cons.prems by simp
      then show ?thesis
        using e1 e2 by auto
    next
      case (Inr u)
      then have "baseSet_loop md (get_prop h2 v k) rest w h2 = (r, h')"
        using step Cons.prems by simp
      from Cons.IH [OF this]
      have "length h2 \<le> length h' \<and> (\<forall>y < length h2. kind (h' ! y) = kind (h2 ! y))" .
      then show ?thesis
        using e1 e2 by auto
    qed
    qed
  qed
qed

lemma assignValue_exact:
  assumes "obj_at h a = Some ob" "\<not> frozen ob"
  shows "assignValue md (VRef a) k w h =
           (Inr (), h[a := ob\<lparr>props := AList.update k w (props ob)\<rparr>])"
proof (cases "has_own h (VRef a) k \<and> get_prop h (VRef a) k = w")
  case True
  then have "map_of (props ob) k = Some w"
    using assms(1)
    by (auto simp: has_own.simps get_prop.simps split: option.splits
        dest: map_of_eq_None_iff [THEN iffD1])
  then have "AList.update k w (props ob) = props ob"
    by (rule update_triv)
  moreover have "h[a := ob] = h"
    using assms(1) by (auto simp: obj_at_def split: if_splits)
  ultimately show ?thesis
    using True by (simp add: assignValue_def)
next
  case False
  then have "assignValue md (VRef a) k w h =
      put_prop (if k = ''__proto__'' then Strict else md) (VRef a) k w h"
    by (auto simp: assignValue_def baseAssignValue_def)
  then show ?thesis
    using assms by (simp add: put_prop.simps)
qed


subsection \<open>The shape of a mapping after a write\<close>

lemma map_of_map_snd:
  "map_of (map (\<lambda>kc. (fst kc, f (snd kc))) kvs) k = map_option f (map_of kvs k)"
  by (induction kvs) auto

lemma map_update_snd:
  "map (\<lambda>kc. (fst kc, f (snd kc))) (AList.update k new kvs) =
     AList.update k (f new) (map (\<lambda>kc. (fst kc, f (snd kc))) kvs)"
  by (induction kvs) auto

lemma set_update_cases:
  "kc \<in> set (AList.update k v al) \<Longrightarrow> kc = (k, v) \<or> kc \<in> set al"
  by (induction al) (auto split: if_splits)

lemma set_update_distinct:
  assumes "distinct (map fst al)" "kc \<in> set (AList.update k v al)"
  shows "kc = (k, v) \<or> (kc \<in> set al \<and> fst kc \<noteq> k)"
proof -
  obtain k' v' where kc: "kc = (k', v')"
    by (cases kc)
  have "distinct (map fst (AList.update k v al))"
    using assms(1) by (rule distinct_update)
  then have "map_of (AList.update k v al) k' = Some v'"
    using assms(2) kc by simp
  then have m: "((map_of al)(k \<mapsto> v)) k' = Some v'"
    by (simp add: update_conv')
  show ?thesis
  proof (cases "k' = k")
    case True
    then show ?thesis using m kc by simp
  next
    case False
    then have "map_of al k' = Some v'"
      using m by simp
    then show ?thesis
      using False kc by (auto dest: map_of_SomeD)
  qed
qed

lemma update_split:
  "k \<in> fst ` set kvs \<Longrightarrow>
     \<exists>pre old post. kvs = pre @ (k, old) # post \<and> map_of kvs k = Some old
        \<and> AList.update k v kvs = pre @ (k, v) # post"
proof (induction kvs)
  case Nil
  then show ?case by simp
next
  case (Cons x xs)
  show ?case
  proof (cases "fst x = k")
    case True
    then have "x # xs = [] @ (k, snd x) # xs \<and> map_of (x # xs) k = Some (snd x)
        \<and> AList.update k v (x # xs) = [] @ (k, v) # xs"
      by (cases x) auto
    then show ?thesis by blast
  next
    case False
    then have "k \<in> fst ` set xs"
      using Cons.prems by auto
    from Cons.IH [OF this] obtain pre old post where
      "xs = pre @ (k, old) # post" "map_of xs k = Some old"
      "AList.update k v xs = pre @ (k, v) # post"
      by blast
    then have "x # xs = (x # pre) @ (k, old) # post \<and> map_of (x # xs) k = Some old
        \<and> AList.update k v (x # xs) = (x # pre) @ (k, v) # post"
      using False by (cases x) auto
    then show ?thesis by blast
  qed
qed

lemma addrs_update_subset:
  "set (addrs (Node a fr (AList.update k new kvs))) \<subseteq>
     set (addrs (Node a fr kvs)) \<union> set (addrs new)"
proof (cases "k \<in> fst ` set kvs")
  case True
  from update_split [OF this, of new] obtain pre old post where
    "kvs = pre @ (k, old) # post" "AList.update k new kvs = pre @ (k, new) # post"
    by blast
  then show ?thesis by auto
next
  case False
  then show ?thesis by (auto simp: update_fresh)
qed

lemma distinct_update_child:
  assumes "distinct (addrs (Node a fr kvs))" "distinct (addrs new)"
    and "\<forall>x \<in> set (addrs new). x \<in> set (addrs (Node a fr kvs)) \<longrightarrow>
           (\<exists>old. map_of kvs k = Some old \<and> x \<in> set (addrs old))"
  shows "distinct (addrs (Node a fr (AList.update k new kvs)))"
proof (cases "k \<in> fst ` set kvs")
  case True
  from update_split [OF this, of new] obtain pre old post where
    s: "kvs = pre @ (k, old) # post" "map_of kvs k = Some old"
      "AList.update k new kvs = pre @ (k, new) # post"
    by blast
  let ?A = "set (concat (map (\<lambda>kc. addrs (snd kc)) pre))"
  let ?B = "set (concat (map (\<lambda>kc. addrs (snd kc)) post))"
  have d: "distinct (concat (map (\<lambda>kc. addrs (snd kc)) pre))"
    "distinct (concat (map (\<lambda>kc. addrs (snd kc)) post))"
    "a \<notin> ?A" "a \<notin> ?B" "a \<notin> set (addrs old)"
    "?A \<inter> ?B = {}" "set (addrs old) \<inter> ?A = {}" "set (addrs old) \<inter> ?B = {}"
    using assms(1) unfolding s(1) by auto
  have "set (addrs (Node a fr kvs)) = insert a (?A \<union> set (addrs old) \<union> ?B)"
    unfolding s(1) by auto
  then have o: "\<forall>x \<in> set (addrs new). x \<in> insert a (?A \<union> ?B) \<longrightarrow> x \<in> set (addrs old)"
    using assms(3) s(2) by auto
  have n: "a \<notin> set (addrs new)" "set (addrs new) \<inter> ?A = {}" "set (addrs new) \<inter> ?B = {}"
    using o d(3-8) by blast+
  have "addrs (Node a fr (AList.update k new kvs)) =
      a # concat (map (\<lambda>kc. addrs (snd kc)) pre) @ addrs new
        @ concat (map (\<lambda>kc. addrs (snd kc)) post)"
    unfolding s(3) by simp
  then show ?thesis
    using d(1-4,6) n assms(2) by (auto simp del: addrs.simps)
next
  case False
  then have "map_of kvs k = None"
    by (simp add: map_of_eq_None_iff)
  then have "\<forall>x \<in> set (addrs new). x \<notin> set (addrs (Node a fr kvs))"
    using assms(3) by auto
  then show ?thesis
    using assms(1,2) False by (auto simp: update_fresh)
qed

lemma root_shape_set [simp]:
  "root (shape_set (Node a fr kvs) P wsh b) = VRef a"
  "is_Node (shape_set (Node a fr kvs) P wsh b)"
  by (cases P; simp)+

lemma child_addrs: "kc \<in> set kvs \<Longrightarrow> set (addrs (snd kc)) \<subseteq> set (addrs (Node a fr kvs))"
  by auto

lemma child_distinct: "kc \<in> set kvs \<Longrightarrow> distinct (addrs (Node a fr kvs)) \<Longrightarrow> distinct (addrs (snd kc))"
  by (induction kvs) auto

lemma child_flags:
  "kc \<in> set kvs \<Longrightarrow> list_all (\<lambda>f. \<not> f) (flags (Node a fr kvs)) \<Longrightarrow>
     list_all (\<lambda>f. \<not> f) (flags (snd kc))"
  by (induction kvs) auto

lemma unfrozen_freezable: "list_all (\<lambda>f. \<not> f) (flags sh) \<Longrightarrow> freezable sh"
proof (induction sh)
  case (Leaf v)
  show ?case by simp
next
  case (Node a fr kvs)
  have "freezable (snd kc)" if "kc \<in> set kvs" for kc
    using Node.IH [of kc "snd kc"] child_flags [OF that Node.prems] that by (cases kc) auto
  then show ?case
    using Node.prems by (simp add: list_all_iff)
qed

lemma foldr_max_le:
  "(\<forall>kc \<in> set kvs. f kc \<le> (m::nat)) \<Longrightarrow> foldr max (map f kvs) 0 \<le> m"
  by (induction kvs) auto

lemma depth_update_le:
  "depth (Node a fr (AList.update k new kvs)) \<le> max (depth (Node a fr kvs)) (Suc (depth new))"
proof -
  have "\<forall>kc \<in> set (AList.update k new kvs).
      depth (snd kc) \<le> max (foldr max (map (\<lambda>kc. depth (snd kc)) kvs) 0) (depth new)"
  proof
    fix kc assume "kc \<in> set (AList.update k new kvs)"
    then have "kc = (k, new) \<or> kc \<in> set kvs"
      by (rule set_update_cases)
    then show "depth (snd kc) \<le> max (foldr max (map (\<lambda>kc. depth (snd kc)) kvs) 0) (depth new)"
      using depth_child [of kc kvs] by auto
  qed
  then have "foldr max (map (\<lambda>kc. depth (snd kc)) (AList.update k new kvs)) 0
      \<le> max (foldr max (map (\<lambda>kc. depth (snd kc)) kvs) 0) (depth new)"
    by (rule foldr_max_le)
  then show ?thesis by simp
qed

lemma shape_set_props:
  assumes "distinct (addrs c)" "list_all (\<lambda>f. \<not> f) (flags c)"
    and "distinct (addrs wsh)" "freezable wsh" "set (addrs wsh) \<inter> set (addrs c) = {}"
    and "\<forall>x \<in> set (addrs c) \<union> set (addrs wsh). x < b"
  shows "distinct (addrs (shape_set c P wsh b)) \<and> freezable (shape_set c P wsh b)
     \<and> set (addrs (shape_set c P wsh b)) \<subseteq> set (addrs c) \<union> set (addrs wsh) \<union> {x. b \<le> x}
     \<and> depth (shape_set c P wsh b) \<le> depth c + length P + depth wsh"
  using assms
proof (induction P arbitrary: c b)
  case Nil
  then show ?case by (auto intro: unfrozen_freezable)
next
  case (Cons k rest)
  show ?case
  proof (cases c)
    case (Leaf v)
    then show ?thesis by simp
  next
    case (Node a fr kvs)
    have fr: "fr = False"
      using Cons.prems(2) Node by simp
    define child where "child =
          (if rest = [] then wsh
           else
             (case map_of kvs k of
                Some (Node a' fr' kvs') \<Rightarrow> shape_set (Node a' fr' kvs') rest wsh b
              | _ \<Rightarrow>
                  if isIndex (hd rest) then Leaf (VRef b)
                  else shape_set (Node b False []) rest wsh (Suc b)))"
    have e: "shape_set c (k # rest) wsh b = Node a False (AList.update k child kvs)"
      by (simp add: Node fr child_def)
    have ch: "distinct (addrs child) \<and> freezable child
        \<and> (\<forall>x \<in> set (addrs child). x \<in> set (addrs c) \<longrightarrow>
               (\<exists>old. map_of kvs k = Some old \<and> x \<in> set (addrs old)))
        \<and> set (addrs child) \<subseteq> set (addrs c) \<union> set (addrs wsh) \<union> {x. b \<le> x}
        \<and> Suc (depth child) \<le> depth c + length (k # rest) + depth wsh"
    proof (cases "rest = []")
      case True
      then have "child = wsh"
        by (simp add: child_def)
      then show ?thesis
        using Cons.prems(3,4,5) Node by auto
    next
      case False
      show ?thesis
      proof (cases "\<exists>a' fr' kvs'. map_of kvs k = Some (Node a' fr' kvs')")
        case True
        then obtain a' fr' kvs' where m: "map_of kvs k = Some (Node a' fr' kvs')"
          by blast
        let ?o = "Node a' fr' kvs'"
        have mem: "(k, ?o) \<in> set kvs"
          using m by (rule map_of_SomeD)
        have c1: "child = shape_set ?o rest wsh b"
          using False m by (simp add: child_def)
        have sub: "set (addrs ?o) \<subseteq> set (addrs c)"
          using child_addrs [OF mem, of a fr] by (simp add: Node)
        have d1: "distinct (addrs ?o)"
          using child_distinct [OF mem, of a fr] Cons.prems(1) by (simp add: Node)
        have f1: "list_all (\<lambda>f. \<not> f) (flags ?o)"
          using child_flags [OF mem, of a fr] Cons.prems(2) by (simp add: Node)
        have dj: "set (addrs wsh) \<inter> set (addrs ?o) = {}"
          using Cons.prems(5) sub by blast
        have lt: "\<forall>x \<in> set (addrs ?o) \<union> set (addrs wsh). x < b"
          using Cons.prems(6) sub by blast
        from Cons.IH [OF d1 f1 Cons.prems(3,4) dj lt]
        have I: "distinct (addrs child)" "freezable child"
          "set (addrs child) \<subseteq> set (addrs ?o) \<union> set (addrs wsh) \<union> {x. b \<le> x}"
          "depth child \<le> depth ?o + length rest + depth wsh"
          unfolding c1 by simp_all
        have "depth ?o \<le> foldr max (map (\<lambda>kc. depth (snd kc)) kvs) 0"
          using depth_child [OF mem] by simp
        then have dp: "Suc (depth child) \<le> depth c + length (k # rest) + depth wsh"
          using I(4) by (simp add: Node)
        have old: "\<forall>x \<in> set (addrs child). x \<in> set (addrs c) \<longrightarrow>
               (\<exists>old. map_of kvs k = Some old \<and> x \<in> set (addrs old))"
        proof (intro ballI impI)
          fix x assume x: "x \<in> set (addrs child)" "x \<in> set (addrs c)"
          have x1: "x < b"
            using Cons.prems(6) x(2) by blast
          have x2: "x \<notin> set (addrs wsh)"
            using Cons.prems(5) x(2) by blast
          have "x \<in> set (addrs ?o) \<union> set (addrs wsh) \<union> {x. b \<le> x}"
            using I(3) x(1) by blast
          then have "x \<in> set (addrs ?o)"
            using x1 x2 by (simp del: addrs.simps)
          then show "\<exists>old. map_of kvs k = Some old \<and> x \<in> set (addrs old)"
            using m by blast
        qed
        have "set (addrs child) \<subseteq> set (addrs c) \<union> set (addrs wsh) \<union> {x. b \<le> x}"
          using I(3) sub by blast
        then show ?thesis
          using I(1,2) old dp by simp
      next
        case nf: False
        show ?thesis
        proof (cases "isIndex (hd rest)")
          case True
          then have "child = Leaf (VRef b)"
            using False nf by (auto simp: child_def split: option.splits shape.splits)
          then show ?thesis
            using False by (cases rest) (simp_all add: Node)
        next
          case ni: False
          let ?o = "Node b False []"
          have c1: "child = shape_set ?o rest wsh (Suc b)"
            using False nf ni by (auto simp: child_def split: option.splits shape.splits)
          have bw: "b \<notin> set (addrs wsh)" "b \<notin> set (addrs c)"
            using Cons.prems(6) by auto
          have I0: "distinct (addrs (shape_set ?o rest wsh (Suc b)))
              \<and> freezable (shape_set ?o rest wsh (Suc b))
              \<and> set (addrs (shape_set ?o rest wsh (Suc b)))
                   \<subseteq> set (addrs ?o) \<union> set (addrs wsh) \<union> {x. Suc b \<le> x}
              \<and> depth (shape_set ?o rest wsh (Suc b)) \<le> depth ?o + length rest + depth wsh"
          proof (rule Cons.IH)
            show "distinct (addrs ?o)" by simp
            show "list_all (\<lambda>f. \<not> f) (flags ?o)" by simp
            show "distinct (addrs wsh)" by (rule Cons.prems(3))
            show "freezable wsh" by (rule Cons.prems(4))
            show "set (addrs wsh) \<inter> set (addrs ?o) = {}" using bw by simp
            show "\<forall>x \<in> set (addrs ?o) \<union> set (addrs wsh). x < Suc b"
              using Cons.prems(6) by (auto simp: less_Suc_eq)
          qed
          then have I: "distinct (addrs child)" "freezable child"
            "set (addrs child) \<subseteq> {b} \<union> set (addrs wsh) \<union> {x. Suc b \<le> x}"
            "depth child \<le> Suc (length rest + depth wsh)"
            unfolding c1 by simp_all
          have old: "\<forall>x \<in> set (addrs child). x \<in> set (addrs c) \<longrightarrow>
               (\<exists>old. map_of kvs k = Some old \<and> x \<in> set (addrs old))"
          proof (intro ballI impI)
            fix x assume x: "x \<in> set (addrs child)" "x \<in> set (addrs c)"
            have x1: "x < b"
              using Cons.prems(6) x(2) by blast
            have x2: "x \<notin> set (addrs wsh)"
              using Cons.prems(5) x(2) by blast
            have "x \<in> {b} \<union> set (addrs wsh) \<union> {x. Suc b \<le> x}"
              using I(3) x(1) by blast
            then have False
              using x1 x2 by simp
            then show "\<exists>old. map_of kvs k = Some old \<and> x \<in> set (addrs old)" ..
          qed
          have sub: "set (addrs child) \<subseteq> set (addrs c) \<union> set (addrs wsh) \<union> {x. b \<le> x}"
            using I(3) by auto
          have "Suc (depth child) \<le> depth c + length (k # rest) + depth wsh"
            using I(4) by (simp add: Node)
          then show ?thesis
            using I(1,2) old sub by simp
        qed
      qed
    qed
    have r1: "distinct (addrs (Node a False (AList.update k child kvs)))"
      using distinct_update_child [of a False kvs child k] Cons.prems(1) ch
      by (simp add: Node fr)
    have "\<forall>kc \<in> set (AList.update k child kvs). freezable (snd kc)"
    proof
      fix kc assume "kc \<in> set (AList.update k child kvs)"
      then have "kc = (k, child) \<or> kc \<in> set kvs"
        by (rule set_update_cases)
      moreover have "freezable (snd kc)" if "kc \<in> set kvs"
        using child_flags [OF that, of a fr] Cons.prems(2) by (auto simp: Node intro: unfrozen_freezable)
      ultimately show "freezable (snd kc)"
        using ch by auto
    qed
    then have r2: "freezable (Node a False (AList.update k child kvs))"
      by (simp add: list_all_iff)
    have r3: "set (addrs (Node a False (AList.update k child kvs)))
        \<subseteq> set (addrs c) \<union> set (addrs wsh) \<union> {x. b \<le> x}"
      using addrs_update_subset [of a False k child kvs] ch by (auto simp: Node fr)
    have d5: "Suc (depth child) \<le> depth c + length (k # rest) + depth wsh"
      using ch by blast
    have d6: "depth (Node a False kvs) \<le> depth c + length (k # rest) + depth wsh"
      by (simp add: Node fr)
    have r4: "depth (Node a False (AList.update k child kvs))
        \<le> depth c + length (k # rest) + depth wsh"
      using depth_update_le [of a False k child kvs] d5 d6 by (simp del: depth.simps)
    from r1 r2 r3 r4 show ?thesis
      unfolding e by (intro conjI)
  qed
qed


lemma shape_at_update_child:
  assumes "obj_at h' a = Some \<lparr>kind = PlainObject, frozen = fr,
        props = AList.update k (root child) (map (\<lambda>kc. (fst kc, root (snd kc))) kvs)\<rparr>"
    and "distinct (map fst kvs)" "shape_at h' child"
    and "\<forall>kc \<in> set kvs. fst kc \<noteq> k \<longrightarrow> shape_at h' (snd kc)"
  shows "shape_at h' (Node a fr (AList.update k child kvs))"
proof -
  have "\<forall>kc \<in> set (AList.update k child kvs). shape_at h' (snd kc)"
  proof
    fix kc assume "kc \<in> set (AList.update k child kvs)"
    from set_update_distinct [OF assms(2) this] show "shape_at h' (snd kc)"
      using assms(3,4) by auto
  qed
  moreover have "distinct (map fst (AList.update k child kvs))"
    using assms(2) by (rule distinct_update)
  ultimately show ?thesis
    using assms(1) by (simp add: map_update_snd list_all_iff)
qed

lemma shape_at_frame_set:
  assumes "shape_at h sib" "length h \<le> length h'"
    and "\<forall>x < length h. x \<notin> X \<longrightarrow> h' ! x = h ! x"
    and "set (addrs sib) \<inter> X = {}"
    and "\<forall>x < length h. kind (h' ! x) = kind (h ! x)"
  shows "shape_at h' sib"
proof (rule shape_at_frame [OF assms(1,2)])
  show "\<forall>x \<in> set (addrs sib). h' ! x = h ! x"
    using assms(3,4) shape_at_addrs_less [OF assms(1)] by blast
  show "\<forall>x < length h. kind (h ! x) \<noteq> PlainObject \<longrightarrow> kind (h' ! x) \<noteq> PlainObject"
    using assms(5) by simp
qed

lemma siblings_disjoint:
  "distinct (concat (map (\<lambda>kc. addrs (snd kc)) kvs)) \<Longrightarrow> kc \<in> set kvs \<Longrightarrow> kc' \<in> set kvs \<Longrightarrow>
     fst kc \<noteq> fst kc' \<Longrightarrow> set (addrs (snd kc)) \<inter> set (addrs (snd kc')) = {}"
proof (induction kvs)
  case Nil
  then show ?case by simp
next
  case (Cons x xs)
  have d: "set (addrs (snd x)) \<inter> set (concat (map (\<lambda>kc. addrs (snd kc)) xs)) = {}"
    "distinct (concat (map (\<lambda>kc. addrs (snd kc)) xs))"
    using Cons.prems(1) by auto
  have sub: "set (addrs (snd y)) \<subseteq> set (concat (map (\<lambda>kc. addrs (snd kc)) xs))" if "y \<in> set xs" for y
    using that by auto
  consider "kc = x" "kc' \<in> set xs" | "kc' = x" "kc \<in> set xs" | "kc \<in> set xs" "kc' \<in> set xs"
    using Cons.prems(2,3,4) by auto
  then show ?case
  proof cases
    case 1
    then show ?thesis using d(1) sub [of kc'] by blast
  next
    case 2
    then show ?thesis using d(1) sub [of kc] by blast
  next
    case 3
    then show ?thesis using Cons.IH [OF d(2) _ _ Cons.prems(4)] by simp
  qed
qed

lemma baseSet_loop_last:
  "\<not> unsafe_key k \<Longrightarrow>
     baseSet_loop md (VRef a) [k] w h =
       (case assignValue md (VRef a) k w h of
          (Inl e, h2) \<Rightarrow> (Inl e, h2) | (Inr u, h2) \<Rightarrow> (Inr (), h2))"
  by (simp split: prod.splits sum.splits)

lemma baseSet_loop_shape:
  assumes "P \<noteq> []" "list_all (\<lambda>k. \<not> unsafe_key k) P"
    and "shape_at h (Node a False kvs)"
    and "list_all (\<lambda>f. \<not> f) (flags (Node a False kvs))"
    and "distinct (addrs (Node a False kvs))"
    and "through_plain (skeleton (Node a False kvs)) P"
    and "shape_at h wsh"
    and "set (addrs wsh) \<inter> set (addrs (Node a False kvs)) = {}"
  shows "\<exists>h'. baseSet_loop md (VRef a) P (root wsh) h = (Inr (), h')
           \<and> shape_at h' (shape_set (Node a False kvs) P wsh (length h))
           \<and> (\<forall>x < length h. x \<notin> set (addrs (Node a False kvs)) \<longrightarrow> h' ! x = h ! x)"
  using assms
proof (induction P arbitrary: a kvs h)
  case Nil
  then show ?case by simp
next
  case (Cons k rest)
  let ?c = "Node a False kvs"
  let ?ps = "map (\<lambda>kc. (fst kc, root (snd kc))) kvs"
  define w where "w = root wsh"
  define ob where "ob = \<lparr>kind = PlainObject, frozen = False, props = ?ps\<rparr>"
  define b where "b = length h"
  have ob: "obj_at h a = Some ob" and dk: "distinct (map fst kvs)"
    and ch: "\<forall>kc \<in> set kvs. shape_at h (snd kc)"
    using Cons.prems(3) by (auto simp: ob_def list_all_iff)
  have nf: "\<not> frozen ob" "props ob = ?ps" "kind ob = PlainObject"
    by (simp_all add: ob_def)
  have ah: "a < length h"
    using ob by (rule obj_at_Some_less)
  have safe: "\<not> unsafe_key k" "list_all (\<lambda>k. \<not> unsafe_key k) rest"
    using Cons.prems(2) by simp_all
  have gp: "get_prop h (VRef a) k = (case map_of kvs k of None \<Rightarrow> VUndefined | Some c \<Rightarrow> root c)"
    using ob by (simp add: get_prop.simps ob_def map_of_map_snd split: option.splits)
  have da: "a \<notin> set (concat (map (\<lambda>kc. addrs (snd kc)) kvs))"
    "distinct (concat (map (\<lambda>kc. addrs (snd kc)) kvs))"
    using Cons.prems(5) by simp_all
  have aw: "a \<notin> set (addrs wsh)"
    using Cons.prems(8) by auto
  have sib_a: "a \<notin> set (addrs (snd kc))" if "kc \<in> set kvs" for kc
    using da(1) that by auto
  define child where "child =
          (if rest = [] then wsh
           else
             (case map_of kvs k of
                Some (Node a' fr' kvs') \<Rightarrow> shape_set (Node a' fr' kvs') rest wsh b
              | _ \<Rightarrow>
                  if isIndex (hd rest) then Leaf (VRef b)
                  else shape_set (Node b False []) rest wsh (Suc b)))"
  have e: "shape_set ?c (k # rest) wsh (length h) = Node a False (AList.update k child kvs)"
    unfolding child_def b_def by simp
  have goal: "\<exists>h'. baseSet_loop md (VRef a) (k # rest) w h = (Inr (), h')
           \<and> shape_at h' (Node a False (AList.update k child kvs))
           \<and> (\<forall>x < length h. x \<notin> set (addrs ?c) \<longrightarrow> h' ! x = h ! x)"
  proof (cases "rest = []")
    case True
    define h' where "h' = h[a := ob\<lparr>props := AList.update k w ?ps\<rparr>]"
    have cw: "child = wsh"
      using True by (simp add: child_def)
    have av: "assignValue md (VRef a) k w h = (Inr (), h')"
      using assignValue_exact [OF ob nf(1), of md k w] by (simp add: h'_def nf(2))
    have run: "baseSet_loop md (VRef a) (k # rest) w h = (Inr (), h')"
      unfolding True baseSet_loop_last [OF safe(1)] av by simp
    have fr: "\<forall>x < length h. x \<notin> {a} \<longrightarrow> h' ! x = h ! x"
      by (simp add: h'_def)
    have kd: "\<forall>x < length h. kind (h' ! x) = kind (h ! x)"
      using ob by (auto simp: h'_def nth_list_update obj_at_def ob_def split: if_splits)
    have len: "length h \<le> length h'"
      by (simp add: h'_def)
    have i: "obj_at h' a = Some \<lparr>kind = PlainObject, frozen = False,
        props = AList.update k (root child) ?ps\<rparr>"
      using ah by (simp add: h'_def obj_at_update ob_def cw w_def)
    have ii: "shape_at h' child"
      unfolding cw using Cons.prems(7) len fr _ kd by (rule shape_at_frame_set) (use aw in simp)
    have iii: "\<forall>kc \<in> set kvs. fst kc \<noteq> k \<longrightarrow> shape_at h' (snd kc)"
    proof (intro ballI impI)
      fix kc assume kc: "kc \<in> set kvs"
      have "shape_at h (snd kc)" using ch kc by simp
      then show "shape_at h' (snd kc)"
        using len fr _ kd by (rule shape_at_frame_set) (use sib_a [OF kc] in simp)
    qed
    have "shape_at h' (Node a False (AList.update k child kvs))"
      using i dk ii iii by (rule shape_at_update_child)
    then show ?thesis
      using run fr by auto
  next
    case False
    show ?thesis
    proof (cases "\<exists>a' fr' kvs'. map_of kvs k = Some (Node a' fr' kvs')")
      case True
      then obtain a' fr' kvs' where m: "map_of kvs k = Some (Node a' fr' kvs')"
        by blast
      have mem: "(k, Node a' fr' kvs') \<in> set kvs"
        using m by (rule map_of_SomeD)
      have "list_all (\<lambda>f. \<not> f) (flags (Node a' fr' kvs'))"
        using child_flags [OF mem, of a False] Cons.prems(4) by simp
      then have fr': "fr' = False" and f1: "list_all (\<lambda>f. \<not> f) (flags (Node a' False kvs'))"
        by simp_all
      let ?o = "Node a' False kvs'"
      have m: "map_of kvs k = Some ?o" and mem: "(k, ?o) \<in> set kvs"
        using m mem fr' by simp_all
      have cc: "child = shape_set ?o rest wsh b"
        using False m by (simp add: child_def)
      have g: "get_prop h (VRef a) k = VRef a'"
        using gp m by simp
      have own: "has_own h (VRef a) k"
        using g by (intro has_own_if_defined) simp
      have av: "assignValue md (VRef a) k (VRef a') h = (Inr (), h)"
        using own g by (simp add: assignValue_def)
      have so: "shape_at h ?o"
        using ch mem by fastforce
      have d1: "distinct (addrs ?o)"
        using child_distinct [OF mem, of a False] Cons.prems(5) by simp
      have sub: "set (addrs ?o) \<subseteq> set (addrs ?c)"
        using child_addrs [OF mem, of a False] by simp
      have tp: "through_plain (skeleton ?o) rest"
        using Cons.prems(6) False m by (simp add: map_of_map_snd)
      have dj: "set (addrs wsh) \<inter> set (addrs ?o) = {}"
        using Cons.prems(8) sub by blast
      from Cons.IH [OF False safe(2) so f1 d1 tp Cons.prems(7) dj] obtain h' where
        I: "baseSet_loop md (VRef a') rest (root wsh) h = (Inr (), h')"
          "shape_at h' (shape_set ?o rest wsh (length h))"
          "\<forall>x < length h. x \<notin> set (addrs ?o) \<longrightarrow> h' ! x = h ! x"
        by blast
      from baseSet_loop_kinds [OF I(1)]
      have len: "length h \<le> length h'" and kd: "\<forall>x < length h. kind (h' ! x) = kind (h ! x)"
        by simp_all
      have run: "baseSet_loop md (VRef a) (k # rest) w h = (Inr (), h')"
        using baseSet_loop_step_object [OF False _ safe(1), of h a md w] g av I(1)
        by (simp add: w_def del: baseSet_loop.simps)
      have ao: "a \<notin> set (addrs ?o)"
        using da(1) mem by fastforce
      then have "h' ! a = h ! a"
        using I(3) ah by simp
      then have a': "obj_at h' a = Some ob"
        using ob ah len by (simp add: obj_at_def)
      have "map_of ?ps k = Some (VRef a')"
        using m by (simp add: map_of_map_snd)
      then have "AList.update k (VRef a') ?ps = ?ps"
        by (rule update_triv)
      then have i: "obj_at h' a = Some \<lparr>kind = PlainObject, frozen = False,
          props = AList.update k (root child) ?ps\<rparr>"
        using a' by (simp add: cc ob_def)
      have ii: "shape_at h' child"
        using I(2) by (simp add: cc b_def)
      have iii: "\<forall>kc \<in> set kvs. fst kc \<noteq> k \<longrightarrow> shape_at h' (snd kc)"
      proof (intro ballI impI)
        fix kc assume kc: "kc \<in> set kvs" "fst kc \<noteq> k"
        have "set (addrs (snd kc)) \<inter> set (addrs (snd (k, ?o))) = {}"
          using da(2) kc(1) mem by (rule siblings_disjoint) (use kc(2) in simp)
        then have dj: "set (addrs (snd kc)) \<inter> set (addrs ?o) = {}"
          by simp
        have "shape_at h (snd kc)" using ch kc(1) by simp
        then show "shape_at h' (snd kc)"
          using len I(3) dj kd by (rule shape_at_frame_set)
      qed
      have "shape_at h' (Node a False (AList.update k child kvs))"
        using i dk ii iii by (rule shape_at_update_child)
      moreover have "\<forall>x < length h. x \<notin> set (addrs ?c) \<longrightarrow> h' ! x = h ! x"
        using I(3) sub by blast
      ultimately show ?thesis
        using run by blast
    next
      case nn: False
      have prim: "\<not> isObject (get_prop h (VRef a) k)"
      proof (cases "map_of kvs k")
        case None
        then show ?thesis using gp by simp
      next
        case (Some q)
        then obtain v where ql: "q = Leaf v"
          using nn by (cases q) auto
        have "through_plain (PLeaf v) rest"
          using Cons.prems(6) False Some ql by (simp add: map_of_map_snd)
        then have "\<not> isObject v"
          using False by (cases rest) simp_all
        then show ?thesis
          using gp Some ql by simp
      qed
      define new where "new = (if isIndex (hd rest) then empty_array else empty_object)"
      define h1 where "h1 = h @ [new]"
      define h2 where "h2 = h1[a := ob\<lparr>props := AList.update k (VRef b) ?ps\<rparr>]"
      have ob1: "obj_at h1 a = Some ob"
        using ob by (simp add: h1_def obj_at_append_Some)
      have av: "assignValue md (VRef a) k (VRef b) h1 = (Inr (), h2)"
        using assignValue_exact [OF ob1 nf(1), of md k "VRef b"] by (simp add: h2_def nf(2))
      have len2: "length h2 = Suc b"
        by (simp add: h2_def h1_def b_def)
      have ba: "b \<noteq> a"
        using ah by (simp add: b_def)
      have a2: "obj_at h2 a = Some (ob\<lparr>props := AList.update k (VRef b) ?ps\<rparr>)"
        using ah by (simp add: h2_def h1_def obj_at_update)
      have newb: "obj_at h2 b = Some new"
        using ba by (simp add: h2_def h1_def b_def obj_at_def)
      have g2: "get_prop h2 (VRef a) k = VRef b"
        using a2 by (simp add: get_prop.simps update_conv')
      have fr02: "\<forall>x < length h. x \<noteq> a \<longrightarrow> h2 ! x = h ! x"
        by (simp add: h2_def h1_def nth_append)
      have kd02: "\<forall>x < length h. kind (h2 ! x) = kind (h ! x)"
        using ob by (auto simp: h2_def h1_def nth_append nth_list_update obj_at_def ob_def
            split: if_splits)
      have step: "baseSet_loop md (VRef a) (k # rest) w h = baseSet_loop md (VRef b) rest w h2"
        using baseSet_loop_step_fresh [OF False prim safe(1), of md w] av g2
        by (simp add: new_def h1_def b_def del: baseSet_loop.simps)
      have wsh2: "shape_at h2 wsh"
        using Cons.prems(7) _ _ _ kd02
      proof (rule shape_at_frame_set)
        show "length h \<le> length h2" using len2 by (simp add: b_def)
        show "\<forall>x < length h. x \<notin> {a} \<longrightarrow> h2 ! x = h ! x" using fr02 by simp
        show "set (addrs wsh) \<inter> {a} = {}" using aw by simp
      qed
      have bw: "b \<notin> set (addrs wsh)"
        using shape_at_addrs_less [OF Cons.prems(7)] by (auto simp: b_def)
      have "\<exists>h'. baseSet_loop md (VRef b) rest w h2 = (Inr (), h')
          \<and> shape_at h' child
          \<and> (\<forall>x < length h2. x \<noteq> b \<longrightarrow> h' ! x = h2 ! x)"
      proof (cases "isIndex (hd rest)")
        case True
        have cc: "child = Leaf (VRef b)"
          using False nn True by (auto simp: child_def split: option.splits shape.splits)
        have nw: "new = empty_array"
          using True by (simp add: new_def)
        have gb: "get_prop h2 (VRef b) k' = VUndefined" for k'
          using newb by (simp add: get_prop.simps nw empty_array_def)
        have wk: "walk h2 (VRef b) rest = [b]"
          using False gb by (cases rest) simp_all
        have ub: "unfrozen_at h2 b"
          using newb by (simp add: unfrozen_at_def nw empty_array_def)
        from baseSet_loop_then_get [OF False _ _ safe(2), of h2 b md w] wk ub obtain h' where
          L: "baseSet_loop md (VRef b) rest w h2 = (Inr (), h')"
            "length h2 \<le> length h'"
            "\<forall>x < length h2. x \<notin> set (walk h2 (VRef b) rest) \<longrightarrow> h' ! x = h2 ! x"
          by auto
        from baseSet_loop_kinds [OF L(1)]
        have "kind (h' ! b) = kind (h2 ! b)"
          using len2 by simp
        then have "kind (h' ! b) = ArrayObject"
          using newb len2 by (simp add: obj_at_def nw empty_array_def)
        then have "opaque h' (VRef b)"
          using L(2) len2 by (simp add: obj_at_def)
        then show ?thesis
          using L(1,3) wk by (auto simp: cc)
      next
        case ni: False
        have cc: "child = shape_set (Node b False []) rest wsh (Suc b)"
          using False nn ni by (auto simp: child_def split: option.splits shape.splits)
        have nw: "new = empty_object"
          using ni by (simp add: new_def)
        have s0: "shape_at h2 (Node b False [])"
          using newb by (simp add: nw empty_object_def)
        have tp: "through_plain (skeleton (Node b False [])) rest"
          using False by (cases rest) simp_all
        from Cons.IH [OF False safe(2) s0 _ _ tp wsh2] bw obtain h' where
          I: "baseSet_loop md (VRef b) rest (root wsh) h2 = (Inr (), h')"
            "shape_at h' (shape_set (Node b False []) rest wsh (length h2))"
            "\<forall>x < length h2. x \<notin> set (addrs (Node b False [])) \<longrightarrow> h' ! x = h2 ! x"
          by auto
        show ?thesis
          using I by (auto simp: cc len2 w_def)
      qed
      then obtain h' where
        R: "baseSet_loop md (VRef b) rest w h2 = (Inr (), h')" "shape_at h' child"
          "\<forall>x < length h2. x \<noteq> b \<longrightarrow> h' ! x = h2 ! x"
        by blast
      from baseSet_loop_kinds [OF R(1)]
      have len': "length h2 \<le> length h'" and kd': "\<forall>x < length h2. kind (h' ! x) = kind (h2 ! x)"
        by simp_all
      have len: "length h \<le> length h'"
        using len' len2 by (simp add: b_def)
      have fr: "\<forall>x < length h. x \<notin> {a} \<longrightarrow> h' ! x = h ! x"
        using R(3) fr02 len2 by (simp add: b_def)
      have kd: "\<forall>x < length h. kind (h' ! x) = kind (h ! x)"
        using kd' kd02 len2 by (simp add: b_def)
      have "h' ! a = h2 ! a"
        using R(3) ah ba len2 by (simp add: b_def)
      then have a': "obj_at h' a = obj_at h2 a"
        using ah len len2 by (simp add: obj_at_def b_def)
      have rc: "root child = VRef b"
        using False nn
        by (cases "isIndex (hd rest)") (auto simp: child_def split: option.splits shape.splits)
      have i: "obj_at h' a = Some \<lparr>kind = PlainObject, frozen = False,
          props = AList.update k (root child) ?ps\<rparr>"
        using a' a2 by (simp add: rc ob_def)
      have iii: "\<forall>kc \<in> set kvs. fst kc \<noteq> k \<longrightarrow> shape_at h' (snd kc)"
      proof (intro ballI impI)
        fix kc assume kc: "kc \<in> set kvs"
        have "shape_at h (snd kc)" using ch kc by simp
        then show "shape_at h' (snd kc)"
          using len fr _ kd by (rule shape_at_frame_set) (use sib_a [OF kc] in simp)
      qed
      have "shape_at h' (Node a False (AList.update k child kvs))"
        using i dk R(2) iii by (rule shape_at_update_child)
      moreover have "\<forall>x < length h. x \<notin> set (addrs ?c) \<longrightarrow> h' ! x = h ! x"
        using fr by simp
      ultimately show ?thesis
        using step R(1) by auto
    qed
  qed
  then show ?case
    unfolding e w_def .
qed

lemma walk_in_shape:
  assumes "shape_at h c" "is_Node c" "distinct (addrs c)" "through_plain (skeleton c) P"
  shows "set (walk h (root c) P) \<subseteq> set (addrs c) \<and> distinct (walk h (root c) P)"
  using assms
proof (induction P arbitrary: c)
  case Nil
  then show ?case by simp
next
  case (Cons k rest)
  obtain a fr kvs where c: "c = Node a fr kvs"
    using Cons.prems(2) by (cases c) auto
  have ob: "obj_at h a = Some \<lparr>kind = PlainObject, frozen = fr,
      props = map (\<lambda>kc. (fst kc, root (snd kc))) kvs\<rparr>"
    and ch: "\<forall>kc \<in> set kvs. shape_at h (snd kc)"
    using Cons.prems(1) by (auto simp: c list_all_iff)
  have gp: "get_prop h (VRef a) k = (case map_of kvs k of None \<Rightarrow> VUndefined | Some c \<Rightarrow> root c)"
    using ob by (simp add: get_prop.simps map_of_map_snd split: option.splits)
  show ?case
  proof (cases "isObject (get_prop h (VRef a) k) \<and> rest \<noteq> []")
    case False
    then have "walk h (VRef a) (k # rest) = [a]"
      by (cases rest) auto
    then show ?thesis by (simp add: c)
  next
    case True
    then obtain q where m: "map_of kvs k = Some q" and io: "isObject (root q)"
      using gp by (cases "map_of kvs k") auto
    have mem: "(k, q) \<in> set kvs"
      using m by (rule map_of_SomeD)
    have tp: "through_plain (skeleton q) rest"
      using Cons.prems(4) True m by (simp add: c map_of_map_snd)
    have no: "is_Node q"
    proof (cases q)
      case (Leaf v)
      then have "\<not> isObject v"
        using tp True by (cases rest) simp_all
      then show ?thesis using io Leaf by simp
    qed simp
    have so: "shape_at h q"
      using ch mem by fastforce
    have d1: "distinct (addrs q)"
      using child_distinct [OF mem, of a fr] Cons.prems(3) by (simp add: c)
    from Cons.IH [OF so no d1 tp]
    have I: "set (walk h (root q) rest) \<subseteq> set (addrs q)" "distinct (walk h (root q) rest)"
      by simp_all
    have "a \<notin> set (addrs q)"
      using Cons.prems(3) mem by (fastforce simp: c)
    moreover have "walk h (VRef a) (k # rest) = a # walk h (root q) rest"
      using True gp m by simp
    moreover have "set (addrs q) \<subseteq> set (addrs c)"
      using child_addrs [OF mem, of a fr] by (simp add: c)
    ultimately show ?thesis
      using I by (auto simp: c)
  qed
qed


subsection \<open>mutate on guarded and unguarded Bags\<close>

lemma depth_copy:
  "depth (copy_shape sh b) = depth sh"
  "foldr max (map (\<lambda>kc. depth (snd kc)) (copy_list kvs b)) 0 =
     foldr max (map (\<lambda>kc. depth (snd kc)) kvs) 0"
  by (induction sh b and kvs b rule: copy_shape_copy_list.induct) simp_all

lemma has_own_shape:
  "shape_at h (Node a fr kvs) \<Longrightarrow> has_own h (VRef a) x \<longleftrightarrow> x \<in> fst ` set kvs"
  by (auto simp: has_own.simps intro: rev_image_eqI)

lemma hasPath_same_struct: "same_struct h h' \<Longrightarrow> hasPath h' v p = hasPath h v p"
proof (induction p arbitrary: v)
  case Nil
  show ?case by simp
next
  case (Cons k rest)
  then show ?case
    by (cases rest) (simp_all add: same_struct_reads)
qed

lemma lodash_has_same_struct: "same_struct h h' \<Longrightarrow> lodash_has h' v k = lodash_has h v k"
  by (simp add: lodash_has_def hasPath_same_struct castPath_same_struct)


text \<open>
  Claim C3 says that for every key and value \<open>mutate(k, v)\<close> on a guarded container does
  not raise, leaves \<open>isGuarded()\<close> true and makes \<open>get(k)\<close> reflect \<open>v\<close>. On the guarded Bag
  made from \<open>{}\<close>, \<open>mutate('c', v)\<close> with \<open>v = Object.freeze({a: {}})\<close> ends in a TypeError
  and leaves \<open>isGuarded()\<close> false: \<open>unguard\<close> and \<open>set\<close> return, then \<open>guard\<close> reaches \<open>v\<close>,
  and \<open>object[key] = freeze(value)\<close> assigns to the frozen \<open>v\<close> in strict code. On the
  guarded Bag made from \<open>{a: {b: 1}, list: [1]}\<close>, \<open>mutate('a', undefined)\<close> returns and
  re-guards, and \<open>has('a')\<close> is true, but \<open>get('a')\<close> is \<open>null\<close>, and \<open>get('a', 'none')\<close> is
  \<open>'none'\<close>. Both hold whether lodash runs sloppy or strict.
\<close>

theorem mutate_guarded_counterexample:
  "\<forall>md.
     Bag_constructor 1 md (VRef 2) True None ex3_heap = Some (Inr (), ex3_guarded)
     \<and> Bag_isGuarded ex3_guarded = VBool True
     \<and> (case Bag_mutate 3 md (Some ''c'') (VRef 1) ex3_guarded of
          Some (Inl e, s') \<Rightarrow> e = TypeError \<and> Bag_isGuarded s' = VBool False
        | _ \<Rightarrow> False)
     \<and> Bag_isGuarded ex1_guarded = VBool True
     \<and> (case Bag_mutate 2 md (Some ''a'') VUndefined ex1_guarded of
          Some (Inr u, s') \<Rightarrow>
            Bag_isGuarded s' = VBool True \<and> Bag_has (Some ''a'') s'
            \<and> Bag_get (Some ''a'') VUndefined s' = VNull
            \<and> Bag_get (Some ''a'') (VStr ''none'') s' = VStr ''none''
        | _ \<Rightarrow> False)"
proof
  fix md
  show "Bag_constructor 1 md (VRef 2) True None ex3_heap = Some (Inr (), ex3_guarded)
     \<and> Bag_isGuarded ex3_guarded = VBool True
     \<and> (case Bag_mutate 3 md (Some ''c'') (VRef 1) ex3_guarded of
          Some (Inl e, s') \<Rightarrow> e = TypeError \<and> Bag_isGuarded s' = VBool False
        | _ \<Rightarrow> False)
     \<and> Bag_isGuarded ex1_guarded = VBool True
     \<and> (case Bag_mutate 2 md (Some ''a'') VUndefined ex1_guarded of
          Some (Inr u, s') \<Rightarrow>
            Bag_isGuarded s' = VBool True \<and> Bag_has (Some ''a'') s'
            \<and> Bag_get (Some ''a'') VUndefined s' = VNull
            \<and> Bag_get (Some ''a'') (VStr ''none'') s' = VStr ''none''
        | _ \<Rightarrow> False)"
    by (cases md)
      (simp_all add: model_eval ex3_guarded_def ex3_heap_def ex1_guarded_def
        numeral_2_eq_2 numeral_3_eq_3)
qed


lemma mutate_on_guarded:
  assumes "GuardedState s = Some True"
    and "shape_at (heap s) sh" "root sh = attributes s" "is_Node sh" "proto_free sh"
    and "key_ok k"
    and "through_plain (skeleton sh) (castPath (heap s) (attributes s) k)"
    and "AttributeModel s = None \<longrightarrow>
           shape_at (heap s) vsh \<and> root vsh = v \<and> distinct (addrs vsh) \<and> freezable vsh"
    and "depth sh + length (castPath (heap s) (attributes s) k) + depth vsh \<le> n"
  shows "\<exists>s'. Bag_mutate n md k v s = Some (Inr (), s')
            \<and> Bag_isGuarded s' = VBool True
            \<and> deep_frozen n (heap s') (attributes s')
            \<and> Bag_has k s'
            \<and> Bag_get k d s' =
                (case AttributeModel s of
                   None \<Rightarrow> if v = VUndefined then (if d = VUndefined then VNull else d) else v
                 | Some m \<Rightarrow> VRef (length (heap s) + length (addrs sh)))
            \<and> (case AttributeModel s of
                   None \<Rightarrow> True
                 | Some m \<Rightarrow> obj_at (heap s') (length (heap s) + length (addrs sh)) =
                     Some \<lparr>kind = ClassInstance, frozen = False, props = m v\<rparr>)"
proof -
  obtain a fr kvs where sh: "sh = Node a fr kvs"
    using assms(4) by (cases sh) auto
  define h where "h = heap s"
  define L where "L = length h"
  define P where "P = castPath h (VRef a) k"
  define d' where "d' = (if d = VUndefined then VNull else d)"
  have at: "attributes s = VRef a"
    using assms(3) sh by simp
  have shh: "shape_at h sh"
    using assms(2) by (simp add: h_def)
  have dn: "depth sh \<le> n"
    using assms(9) by simp
  from unfreeze_shape_at [OF shh assms(4) dn assms(5)] obtain h1 where
    U: "unfreeze n (VRef a) h = Some (Inr (VRef L), h1)"
      "length h1 = L + length (addrs sh)" "\<forall>x < L. h1 ! x = h ! x"
      "shape_at h1 (copy_shape sh L)"
    unfolding L_def sh by auto
  define ckvs where "ckvs = copy_list kvs (Suc L)"
  let ?c = "Node L False ckvs"
  have cc: "copy_shape sh L = ?c"
    by (simp add: sh ckvs_def)
  define s1 where "s1 = s\<lparr>heap := h1, attributes := VRef L, GuardedState := Some False\<rparr>"
  have ung: "Bag_unguard n s = Some (Inr (), s1)"
    using U(1) by (simp add: Bag_unguard_def at h_def [symmetric] s1_def)
  define w where "w = (case AttributeModel s of None \<Rightarrow> v | Some m \<Rightarrow> VRef (length h1))"
  define g where "g = (case AttributeModel s of None \<Rightarrow> []
      | Some m \<Rightarrow> [\<lparr>kind = ClassInstance, frozen = False, props = m v\<rparr>])"
  define h1' where "h1' = h1 @ g"
  define wsh where "wsh = (case AttributeModel s of None \<Rightarrow> vsh
      | Some m \<Rightarrow> Leaf (VRef (length h1)))"
  have cm: "convertToModel v s1 = (w, s1\<lparr>heap := h1'\<rparr>)"
    by (cases "AttributeModel s")
      (simp_all add: convertToModel_def alloc_def s1_def w_def g_def h1'_def)
  have LL: "L \<le> length h1"
    using U(2) by simp
  have kd1: "\<forall>x < length h. kind (h1 ! x) = kind (h ! x)"
    using U(3) by (simp add: L_def)
  have sc: "shape_at h1' ?c"
    using U(4) unfolding cc h1'_def by (rule shape_at_append)
  have rw: "root wsh = w"
    using assms(8) by (cases "AttributeModel s") (simp_all add: wsh_def w_def)
  have sw: "shape_at h1' wsh"
  proof (cases "AttributeModel s")
    case None
    then have "shape_at h vsh"
      using assms(8) by (simp add: h_def)
    then have "shape_at h1 vsh"
    proof (rule shape_at_frame_set)
      show "length h \<le> length h1" using LL by (simp add: L_def)
      show "\<forall>x < length h. x \<notin> {} \<longrightarrow> h1 ! x = h ! x" using U(3) by (simp add: L_def)
      show "set (addrs vsh) \<inter> {} = {}" by simp
      show "\<forall>x < length h. kind (h1 ! x) = kind (h ! x)" by (rule kd1)
    qed
    then show ?thesis
      using None by (simp add: wsh_def h1'_def shape_at_append)
  next
    case (Some m)
    then show ?thesis
      by (simp add: wsh_def h1'_def g_def obj_at_def)
  qed
  have pw: "distinct (addrs wsh)" "freezable wsh" "\<forall>x \<in> set (addrs wsh). x < L"
    "depth wsh \<le> depth vsh"
    using assms(8) shape_at_addrs_less [of h vsh]
    by (cases "AttributeModel s"; auto simp: wsh_def h_def L_def)+
  have ac: "addrs ?c = [L ..< L + length (addrs sh)]"
    using addrs_copy(1) [of sh L] by (simp add: cc)
  have dc: "distinct (addrs ?c)"
    unfolding ac by simp
  have fc: "list_all (\<lambda>f. \<not> f) (flags ?c)"
    using flags_copy(1) [of sh L] by (simp add: cc)
  have skel: "skeleton ?c = skeleton sh"
    using skeleton_copy(1) [of sh L] by (simp add: cc)
  have dpc: "depth ?c = depth sh"
    using depth_copy(1) [of sh L] by (simp add: cc)
  have dj: "set (addrs wsh) \<inter> set (addrs ?c) = {}"
    using pw(3) unfolding ac by auto
  have keys: "fst ` set ckvs = fst ` set kvs"
    using map_fst_copy_list [of kvs "Suc L"] unfolding ckvs_def
    by (metis set_map)
  have ho: "has_own h1' (VRef L) x \<longleftrightarrow> has_own h (VRef a) x" for x
    using has_own_shape [OF sc] has_own_shape [OF shh [unfolded sh]] keys by simp
  have cp: "castPath h1' (VRef L) k = P"
    by (cases k) (simp_all add: P_def isKey_def ho)
  have Ps: "castPath (heap s) (attributes s) k = P"
    by (simp add: P_def h_def at)
  have tp: "through_plain (skeleton ?c) P"
    using assms(7) unfolding skel Ps .
  have safe: "list_all (\<lambda>seg. \<not> unsafe_key seg) P"
    unfolding P_def using assms(6) by (rule key_ok_safe)
  have ne: "P \<noteq> []"
    by (simp add: P_def castPath_nonempty)
  from baseSet_loop_shape [OF ne safe sc fc dc tp sw dj, of md] obtain h2 where
    S: "baseSet_loop md (VRef L) P w h1' = (Inr (), h2)"
      "shape_at h2 (shape_set ?c P wsh (length h1'))"
      "\<forall>x < length h1'. x \<notin> set (addrs ?c) \<longrightarrow> h2 ! x = h1' ! x"
    unfolding rw by blast
  from walk_in_shape [OF sc _ dc tp]
  have wk: "set (walk h1' (VRef L) P) \<subseteq> set (addrs ?c)" "distinct (walk h1' (VRef L) P)"
    by simp_all
  have "unfrozen_at h1' x" if "x \<in> set (addrs ?c)" for x
    using shape_at_node_obj [OF sc that fc] by (auto simp: unfrozen_at_def)
  then have uw: "list_all (unfrozen_at h1') (walk h1' (VRef L) P)"
    using wk(1) by (auto simp: list_all_iff)
  from lodash_set_then_get [of h1' L k md w d', unfolded cp, OF wk(2) uw assms(6)] obtain h2' where
    G: "lodash_set md (VRef L) k w h1' = (Inr (), h2')"
      "lodash_get h2' (VRef L) k d' = (if w = VUndefined then d' else w)"
      "lodash_has h2' (VRef L) k"
    by blast
  have "lodash_set md (VRef L) k w h1' = baseSet_loop md (VRef L) P w h1'"
    by (simp add: lodash_set_def baseSet_def cp)
  then have h22: "h2' = h2"
    using G(1) S(1) by simp
  define s2 where "s2 = s1\<lparr>heap := h2\<rparr>"
  have st: "Bag_set md k v s1 = (Inr (), s2)"
    unfolding Bag_set_def cm using G(1) by (simp add: h22 s2_def s1_def)
  define c2 where "c2 = shape_set ?c P wsh (length h1')"
  have bound: "\<forall>x \<in> set (addrs ?c) \<union> set (addrs wsh). x < length h1'"
    using shape_at_addrs_less [OF sc] shape_at_addrs_less [OF sw] by blast
  from shape_set_props [OF dc fc pw(1,2) dj bound, of P]
  have c2p: "distinct (addrs c2)" "freezable c2"
    "set (addrs c2) \<subseteq> set (addrs ?c) \<union> set (addrs wsh) \<union> {x. length h1' \<le> x}"
    "depth c2 \<le> depth ?c + length P + depth wsh"
    unfolding c2_def by blast+
  have c2n: "is_Node c2" "root c2 = VRef L"
    by (simp_all add: c2_def)
  have "depth c2 \<le> n"
    using c2p(4) pw(4) assms(9) unfolding dpc Ps by simp
  from freeze_shape_at [OF S(2) [folded c2_def] c2n(1) c2p(1,2) this]
  have fz: "freeze n (VRef L) h2 = Some (Inr (VRef L), marks (set (addrs c2)) h2)"
    by (simp add: c2n(2))
  define h3 where "h3 = marks (set (addrs c2)) h2"
  define s' where "s' = s2\<lparr>heap := h3, GuardedState := Some True\<rparr>"
  have gd: "Bag_guard n s2 = Some (Inr (), s')"
    using fz by (simp add: Bag_guard_def s2_def s1_def s'_def h3_def)
  have mu: "Bag_mutate n md k v s = Some (Inr (), s')"
    using assms(1) ung st gd by (simp add: Bag_mutate_def Bag_isGuarded_def)
  have ss: "same_struct h2 h3"
    unfolding h3_def by (rule same_struct_marks)
  have hs: "heap s' = h3" "attributes s' = VRef L" "GuardedState s' = Some True"
    "AttributeModel s' = AttributeModel s"
    by (simp_all add: s'_def s2_def s1_def)
  have r1: "Bag_isGuarded s' = VBool True"
    by (simp add: Bag_isGuarded_def hs)
  have r2: "deep_frozen n (heap s') (attributes s')"
    using freeze_deep [OF fz] by (simp add: hs h3_def)
  have r3: "Bag_has k s'"
    using G(3) lodash_has_same_struct [OF ss] by (simp add: Bag_has_def hs h22)
  have "Bag_get k d s' = (if w = VUndefined then d' else w)"
    using G(2) lodash_get_same_struct [OF ss] by (simp add: Bag_get_def hs h22 d'_def)
  then have r4: "Bag_get k d s' =
                (case AttributeModel s of
                   None \<Rightarrow> if v = VUndefined then (if d = VUndefined then VNull else d) else v
                 | Some m \<Rightarrow> VRef (length (heap s) + length (addrs sh)))"
    using U(2) by (cases "AttributeModel s") (simp_all add: w_def d'_def L_def h_def)
  have r5: "case AttributeModel s of
                   None \<Rightarrow> True
                 | Some m \<Rightarrow> obj_at (heap s') (length (heap s) + length (addrs sh)) =
                     Some \<lparr>kind = ClassInstance, frozen = False, props = m v\<rparr>"
  proof (cases "AttributeModel s")
    case None
    then show ?thesis by simp
  next
    case (Some m)
    define i where "i = length h1"
    have g1: "g = [\<lparr>kind = ClassInstance, frozen = False, props = m v\<rparr>]"
      using Some by (simp add: g_def)
    have il: "i < length h1'" "length h1' = Suc i"
      by (simp_all add: h1'_def g1 i_def)
    have ic: "i \<notin> set (addrs ?c)"
      unfolding ac using U(2) by (simp add: i_def)
    have "addrs wsh = []"
      using Some by (simp add: wsh_def)
    then have "i \<notin> set (addrs c2)"
      using c2p(3) ic il(2) by auto
    moreover have "h2 ! i = h1' ! i"
      using S(3) il(1) ic by simp
    moreover have "length h1' \<le> length h2"
      using baseSet_loop_kinds [OF S(1)] by simp
    ultimately have "obj_at h3 i = Some (h1' ! i)"
      using il(1) by (simp add: h3_def obj_at_def nth_marks)
    moreover have "h1' ! i = \<lparr>kind = ClassInstance, frozen = False, props = m v\<rparr>"
      by (simp add: h1'_def g1 i_def)
    moreover have "i = length (heap s) + length (addrs sh)"
      using U(2) by (simp add: i_def L_def h_def)
    ultimately show ?thesis
      using Some by (simp add: hs)
  qed
  from mu r1 r2 r3 r4 r5 show ?thesis
    by (intro conjI exI [of _ s']) simp_all
qed

lemma mutate_on_unguarded:
  assumes "GuardedState s0 \<noteq> Some True"
  shows "Bag_mutate n md k v s0 = Some (Bag_set md k v s0)
       \<and> Bag_isGuarded (snd (Bag_set md k v s0)) = Bag_isGuarded s0"
proof -
  have "\<not> truthy (Bag_isGuarded s0)"
    using assms by (cases "GuardedState s0") (auto simp: Bag_isGuarded_def)
  then have "Bag_mutate n md k v s0 = Some (Bag_set md k v s0)"
    by (cases "Bag_set md k v s0"; cases "fst (Bag_set md k v s0)")
      (auto simp: Bag_mutate_def)
  then show ?thesis
    using GuardedState_Bag_set [of md k v s0] by (simp add: Bag_isGuarded_def)
qed


text \<open>
  Claim C3, amended. Take a Bag whose flag is true and whose attributes are a plain nested
  mapping (\<open>shape_at\<close>) with no key \<open>__proto__\<close>, a key \<open>k\<close> of the fragment (\<open>key_ok\<close>)
  whose path runs through mappings, missing keys and primitives of the attributes
  (\<open>through_plain\<close>), and, when the Bag has no model, a value \<open>v\<close> that is a primitive, an
  array, an instance, or a tree of plain mappings (no mapping of it reached twice) in
  which no frozen mapping has a mapping as a child (\<open>freezable\<close>). With fuel for the
  depth of the attributes, of the path and of the value, \<open>mutate(k, v)\<close> returns
  normally, \<open>isGuarded()\<close> is true afterwards and the attributes are deep frozen again,
  \<open>has(k)\<close> is true, and \<open>get(k, d)\<close> returns \<open>v\<close>, or the fallback (\<open>null\<close> when \<open>d\<close> is
  \<open>undefined\<close>) when \<open>v\<close> is \<open>undefined\<close>; with a model it returns a new, unfrozen instance
  whose fields are the model's of \<open>v\<close>. On a Bag whose flag is not true, \<open>mutate(k, v)\<close> is
  \<open>set(k, v)\<close>, result and state, for every key and value, and the flag is what it was.
\<close>

theorem mutate_rewrites_and_reguards:
  "(GuardedState s = Some True
      \<and> shape_at (heap s) sh \<and> root sh = attributes s \<and> is_Node sh \<and> proto_free sh
      \<and> key_ok k
      \<and> through_plain (skeleton sh) (castPath (heap s) (attributes s) k)
      \<and> (AttributeModel s = None \<longrightarrow>
            shape_at (heap s) vsh \<and> root vsh = v \<and> distinct (addrs vsh) \<and> freezable vsh)
      \<and> depth sh + length (castPath (heap s) (attributes s) k) + depth vsh \<le> n
    \<longrightarrow> (\<exists>s'. Bag_mutate n md k v s = Some (Inr (), s')
            \<and> Bag_isGuarded s' = VBool True
            \<and> deep_frozen n (heap s') (attributes s')
            \<and> Bag_has k s'
            \<and> Bag_get k d s' =
                (case AttributeModel s of
                   None \<Rightarrow> if v = VUndefined then (if d = VUndefined then VNull else d) else v
                 | Some m \<Rightarrow> VRef (length (heap s) + length (addrs sh)))
            \<and> (case AttributeModel s of
                   None \<Rightarrow> True
                 | Some m \<Rightarrow> obj_at (heap s') (length (heap s) + length (addrs sh)) =
                     Some \<lparr>kind = ClassInstance, frozen = False, props = m v\<rparr>)))
   \<and> (GuardedState s0 \<noteq> Some True \<longrightarrow>
        Bag_mutate n0 md k0 v0 s0 = Some (Bag_set md k0 v0 s0)
        \<and> Bag_isGuarded (snd (Bag_set md k0 v0 s0)) = Bag_isGuarded s0)"
proof (rule conjI; rule impI)
  assume a: "GuardedState s = Some True
      \<and> shape_at (heap s) sh \<and> root sh = attributes s \<and> is_Node sh \<and> proto_free sh
      \<and> key_ok k
      \<and> through_plain (skeleton sh) (castPath (heap s) (attributes s) k)
      \<and> (AttributeModel s = None \<longrightarrow>
            shape_at (heap s) vsh \<and> root vsh = v \<and> distinct (addrs vsh) \<and> freezable vsh)
      \<and> depth sh + length (castPath (heap s) (attributes s) k) + depth vsh \<le> n"
  have a1: "GuardedState s = Some True" and a2: "shape_at (heap s) sh"
    and a3: "root sh = attributes s" and a4: "is_Node sh" and a5: "proto_free sh"
    and a6: "key_ok k"
    and a7: "through_plain (skeleton sh) (castPath (heap s) (attributes s) k)"
    and a8: "AttributeModel s = None \<longrightarrow>
            shape_at (heap s) vsh \<and> root vsh = v \<and> distinct (addrs vsh) \<and> freezable vsh"
    and a9: "depth sh + length (castPath (heap s) (attributes s) k) + depth vsh \<le> n"
    using a by blast+
  show "\<exists>s'. Bag_mutate n md k v s = Some (Inr (), s')
            \<and> Bag_isGuarded s' = VBool True
            \<and> deep_frozen n (heap s') (attributes s')
            \<and> Bag_has k s'
            \<and> Bag_get k d s' =
                (case AttributeModel s of
                   None \<Rightarrow> if v = VUndefined then (if d = VUndefined then VNull else d) else v
                 | Some m \<Rightarrow> VRef (length (heap s) + length (addrs sh)))
            \<and> (case AttributeModel s of
                   None \<Rightarrow> True
                 | Some m \<Rightarrow> obj_at (heap s') (length (heap s) + length (addrs sh)) =
                     Some \<lparr>kind = ClassInstance, frozen = False, props = m v\<rparr>)"
    using a1 a2 a3 a4 a5 a6 a7 a8 a9 by (rule mutate_on_guarded)
next
  assume "GuardedState s0 \<noteq> Some True"
  then show "Bag_mutate n0 md k0 v0 s0 = Some (Bag_set md k0 v0 s0)
        \<and> Bag_isGuarded (snd (Bag_set md k0 v0 s0)) = Bag_isGuarded s0"
    by (rule mutate_on_unguarded)
qed


theorem mutate_rewrites_and_reguards_witness:
  "GuardedState ex1_guarded = Some True
   \<and> shape_at (heap ex1_guarded) ex1_shape \<and> root ex1_shape = attributes ex1_guarded
   \<and> is_Node ex1_shape \<and> proto_free ex1_shape \<and> key_ok (Some ''a.b'')
   \<and> through_plain (skeleton ex1_shape)
        (castPath (heap ex1_guarded) (attributes ex1_guarded) (Some ''a.b''))
   \<and> shape_at (heap ex1_guarded) (Leaf (VNum 99)) \<and> root (Leaf (VNum 99)) = VNum 99
   \<and> distinct (addrs (Leaf (VNum 99))) \<and> freezable (Leaf (VNum 99))
   \<and> depth ex1_shape
        + length (castPath (heap ex1_guarded) (attributes ex1_guarded) (Some ''a.b''))
        + depth (Leaf (VNum 99)) \<le> 4
   \<and> (\<exists>s'. Bag_mutate 4 Strict (Some ''a.b'') (VNum 99) ex1_guarded = Some (Inr (), s')
          \<and> Bag_isGuarded s' = VBool True
          \<and> Bag_has (Some ''a.b'') s'
          \<and> Bag_get (Some ''a.b'') VUndefined s' = VNum 99)
   \<and> GuardedState ex1_bag \<noteq> Some True
   \<and> Bag_mutate 4 Strict (Some ''a.b'') (VNum 99) ex1_bag
        = Some (Bag_set Strict (Some ''a.b'') (VNum 99) ex1_bag)"
proof -
  have a: "GuardedState ex1_guarded = Some True"
    by (simp add: ex1_guarded_def)
  have b: "shape_at (heap ex1_guarded) ex1_shape" "root ex1_shape = attributes ex1_guarded"
    "is_Node ex1_shape" "proto_free ex1_shape"
    by (simp_all add: ex1_guarded_def ex1_shape_def obj_at_def)
  have k: "key_ok (Some ''a.b'')"
    by (simp add: key_ok_def bracket_free_def name_ok_def reserved_names_def)
  have p: "castPath (heap ex1_guarded) (attributes ex1_guarded) (Some ''a.b'') = [''a'', ''b'']"
    by (simp add: ex1_guarded_def isKey_def has_own.simps obj_at_def)
  have t: "through_plain (skeleton ex1_shape)
        (castPath (heap ex1_guarded) (attributes ex1_guarded) (Some ''a.b''))"
    unfolding p by (simp add: ex1_shape_def)
  have v: "shape_at (heap ex1_guarded) (Leaf (VNum 99))" "root (Leaf (VNum 99)) = VNum 99"
    "distinct (addrs (Leaf (VNum 99)))" "freezable (Leaf (VNum 99))"
    by simp_all
  have n: "depth ex1_shape
        + length (castPath (heap ex1_guarded) (attributes ex1_guarded) (Some ''a.b''))
        + depth (Leaf (VNum 99)) \<le> 4"
    unfolding p by (simp add: ex1_shape_def)
  have u: "GuardedState ex1_bag \<noteq> Some True" "AttributeModel ex1_guarded = None"
    by (simp_all add: ex1_bag_def ex1_guarded_def)
  have v': "AttributeModel ex1_guarded = None \<longrightarrow>
      shape_at (heap ex1_guarded) (Leaf (VNum 99)) \<and> root (Leaf (VNum 99)) = VNum 99
      \<and> distinct (addrs (Leaf (VNum 99))) \<and> freezable (Leaf (VNum 99))"
    by simp
  from mutate_rewrites_and_reguards [of ex1_guarded ex1_shape "Some ''a.b''" "Leaf (VNum 99)"
      "VNum 99" 4 Strict VUndefined ex1_bag 4 "Some ''a.b''" "VNum 99"] a b k t v' n
  have "(\<exists>s'. Bag_mutate 4 Strict (Some ''a.b'') (VNum 99) ex1_guarded = Some (Inr (), s')
          \<and> Bag_isGuarded s' = VBool True
          \<and> Bag_has (Some ''a.b'') s'
          \<and> Bag_get (Some ''a.b'') VUndefined s' = VNum 99)
   \<and> Bag_mutate 4 Strict (Some ''a.b'') (VNum 99) ex1_bag
        = Some (Bag_set Strict (Some ''a.b'') (VNum 99) ex1_bag)"
    using u by auto
  with a b k t v n u(1) show ?thesis
    by (intro conjI) simp_all
qed

end
